theory Spec2Isabelle
  imports Main
begin

section \<open>Approximate Steiner tree search of steiner.js\<close>

subsection \<open>Data model\<close>

text \<open>
  A caller's node "can be anything" and is only ever compared with \<open>===\<close>; it is an
  opaque identity.  A caller's edge carries its two end nodes, a weight and free
  metadata.  The fields \<open>from\<close>, \<open>to\<close> and \<open>weight\<close> are written \<open>efrom\<close>, \<open>eto\<close> and
  \<open>eweight\<close> here, and \<open>xfrom\<close>, \<open>xto\<close> and \<open>xweight\<close> on the annotated copy.
\<close>

type_synonym node = nat

record edge =
  efrom :: node
  eto :: node
  eweight :: int
  emeta :: string

text \<open>
  The annotated copies.  An annotated node lives in the array \<open>xnodes\<close> and every
  reference to one (\<open>xedge.from\<close>, \<open>xedge.to\<close>, \<open>ppath.point\<close>, \<open>witness.node\<close>) is
  its position in that array.  Annotated edges and partial paths are never compared by
  identity and their end points and weight are never reassigned, so they are values.
  The queue of the \<open>fifo\<close> package is a list: \<open>push\<close> appends, \<open>shift\<close> takes the head.
\<close>

record xedge =
  edge :: edge
  xfrom :: nat
  xto :: nat
  xweight :: int
  xin_solution :: bool
  xin_first_component :: bool

record ppath =
  point :: nat
  path :: "xedge list"
  endweight :: int

record witness =
  wnode :: nat
  wpath :: "xedge list"

record xnode =
  node :: node
  reqd :: bool
  outgoing :: "xedge list"
  incoming :: "xedge list"
  in_permanent_web :: bool
  in_temporary_web :: bool
  in_solution :: bool
  in_first_component :: bool
  witness :: "witness option"
  fifo :: "ppath list"

record state =
  xnodes :: "xnode list"
  soln :: "xedge list"
  solved_reqds :: nat

datatype error = TypeError

subsection \<open>Building the annotated graph\<close>

fun is_reqd :: "node list \<Rightarrow> node \<Rightarrow> bool" where
  "is_reqd [] n = False"
| "is_reqd (r # rs) n = (if r = n then True else is_reqd rs n)"

definition new_xnode :: "node list \<Rightarrow> node \<Rightarrow> xnode" where
  "new_xnode required n =
     \<lparr>node = n, reqd = is_reqd required n, outgoing = [], incoming = [],
      in_permanent_web = False, in_temporary_web = False, in_solution = False,
      in_first_component = False, witness = None, fifo = []\<rparr>"

definition count_reqds :: "xnode list \<Rightarrow> nat" where
  "count_reqds xs = length (filter reqd xs)"

text \<open>\<open>get_xnode\<close> returns the first annotated node wrapping \<open>n\<close>, or \<open>undefined\<close>.\<close>

fun get_xnode_at :: "nat \<Rightarrow> xnode list \<Rightarrow> node \<Rightarrow> nat option" where
  "get_xnode_at i [] n = None"
| "get_xnode_at i (x # xs) n = (if node x = n then Some i else get_xnode_at (Suc i) xs n)"

definition get_xnode :: "xnode list \<Rightarrow> node \<Rightarrow> nat option" where
  "get_xnode xs n = get_xnode_at 0 xs n"

definition push_outgoing :: "nat \<Rightarrow> xedge \<Rightarrow> xnode list \<Rightarrow> xnode list" where
  "push_outgoing i x xs = xs[i := (xs ! i)\<lparr>outgoing := outgoing (xs ! i) @ [x]\<rparr>]"

definition push_incoming :: "nat \<Rightarrow> xedge \<Rightarrow> xnode list \<Rightarrow> xnode list" where
  "push_incoming i x xs = xs[i := (xs ! i)\<lparr>incoming := incoming (xs ! i) @ [x]\<rparr>]"

text \<open>
  One pass of \<open>edges.forEach\<close>.  Reading \<open>.outgoing\<close> or \<open>.incoming\<close> of \<open>undefined\<close>
  throws, and the exception leaves \<open>steiner\<close>.
\<close>

definition add_xedge :: "edge \<Rightarrow> xnode list \<times> xedge list \<Rightarrow> error + xnode list \<times> xedge list" where
  "add_xedge e g =
     (case g of (xs, xes) \<Rightarrow>
        (case get_xnode xs (efrom e) of
           None \<Rightarrow> Inl TypeError
         | Some f \<Rightarrow>
             (case get_xnode xs (eto e) of
                None \<Rightarrow> Inl TypeError
              | Some t \<Rightarrow>
                  (let x = \<lparr>edge = e, xfrom = f, xto = t, xweight = eweight e,
                            xin_solution = False, xin_first_component = False\<rparr>
                   in Inr (push_incoming t x (push_outgoing f x xs), xes @ [x])))))"

fun add_xedges :: "edge list \<Rightarrow> xnode list \<times> xedge list \<Rightarrow> error + xnode list \<times> xedge list" where
  "add_xedges [] g = Inr g"
| "add_xedges (e # es) g =
     (case add_xedge e g of Inl err \<Rightarrow> Inl err | Inr g' \<Rightarrow> add_xedges es g')"

definition build_graph :: "node list \<Rightarrow> edge list \<Rightarrow> node list \<Rightarrow> error + xnode list \<times> xedge list" where
  "build_graph nodes edges required = add_xedges edges (map (new_xnode required) nodes, [])"

subsection \<open>Removing non-unique edges\<close>

definition same_ends :: "xedge \<Rightarrow> xedge \<Rightarrow> bool" where
  "same_ends r e \<longleftrightarrow> xfrom r = xfrom e \<and> xto r = xto e"

definition uniqueify_step :: "xedge \<Rightarrow> xedge list \<Rightarrow> xedge list" where
  "uniqueify_step e retval = (if list_ex (\<lambda>r. same_ends r e) retval then retval else retval @ [e])"

definition uniqueify :: "xedge list \<Rightarrow> xedge list" where
  "uniqueify es = fold uniqueify_step es []"

subsection \<open>The simultaneous breadth first searches\<close>

text \<open>Every required node gets a queue holding the empty path to itself.\<close>

definition seed_fifo :: "nat \<Rightarrow> xnode \<Rightarrow> xnode" where
  "seed_fifo i n = (if \<not> reqd n then n else n\<lparr>fifo := [\<lparr>point = i, path = [], endweight = 0\<rparr>]\<rparr>)"

definition seed_fifos :: "xnode list \<Rightarrow> xnode list" where
  "seed_fifos xs = map (\<lambda>i. seed_fifo i (xs ! i)) [0..<length xs]"

definition set_permanent :: "nat \<Rightarrow> xnode list \<Rightarrow> xnode list" where
  "set_permanent i xs = xs[i := (xs ! i)\<lparr>in_permanent_web := True\<rparr>]"

definition mark_steps :: "xedge list \<Rightarrow> xnode list \<Rightarrow> xnode list" where
  "mark_steps steps xs = fold (\<lambda>step. set_permanent (xfrom step)) steps xs"

definition push_fifo :: "nat \<Rightarrow> ppath \<Rightarrow> state \<Rightarrow> state" where
  "push_fifo n pp s =
     s\<lparr>xnodes := (xnodes s)[n := (xnodes s ! n)\<lparr>fifo := fifo (xnodes s ! n) @ [pp]\<rparr>]\<rparr>"

text \<open>
  The step to a fellow required vertex or to the permanent web (lines 190 to 199),
  with the test of the flag that was just set kept as it is written.
\<close>

definition terminal_merge :: "xedge list \<Rightarrow> xedge \<Rightarrow> state \<Rightarrow> state" where
  "terminal_merge pth out s =
     (let sol = soln s @ pth @ [out];
          xs = set_permanent (xto out) (mark_steps pth (xnodes s))
      in \<lparr>xnodes = xs, soln = sol,
          solved_reqds = (if \<not> in_permanent_web (xs ! xto out)
                          then solved_reqds s + 2 else solved_reqds s + 1)\<rparr>)"

text \<open>
  The step onto a path another required vertex has searched (lines 211 to 217).  The
  source assigns \<open>new_edges\<close>, \<open>new_path\<close> and \<open>new_ppath\<close> without declaring them; each is
  read only in the statements that follow its assignment, so they are local here.
\<close>

definition collision_merge :: "xedge list \<Rightarrow> witness \<Rightarrow> xedge \<Rightarrow> state \<Rightarrow> state" where
  "collision_merge pth w out s =
     (let new_edges = pth @ wpath w @ [out]
      in \<lparr>xnodes = set_permanent (xto out) (mark_steps new_edges (xnodes s)),
          soln = soln s @ new_edges,
          solved_reqds = solved_reqds s + 2\<rparr>)"

text \<open>
  The loop over \<open>p.outgoing\<close>.  The flag of the result says whether the loop was left
  by \<open>break\<close>.  Reading \<open>to.witness.node\<close> while the witness is still \<open>null\<close> throws.
\<close>

fun scan_outgoing :: "nat \<Rightarrow> xedge list \<Rightarrow> xedge list \<Rightarrow> state \<Rightarrow> error + bool \<times> state" where
  "scan_outgoing n pth [] s = Inr (False, s)"
| "scan_outgoing n pth (out # rest) s =
     (let to = xnodes s ! xto out in
      if (reqd to \<and> xto out \<noteq> n) \<or> in_permanent_web to
      then Inr (True, terminal_merge pth out s)
      else if in_temporary_web to
      then (case witness to of
              None \<Rightarrow> Inl TypeError
            | Some w \<Rightarrow>
                if wnode w = n then scan_outgoing n pth rest s
                else Inr (True, collision_merge pth w out s))
      else scan_outgoing n pth rest
             (push_fifo n \<lparr>point = xto out, path = pth @ [out], endweight = xweight out\<rparr> s))"

definition set_fifo :: "nat \<Rightarrow> ppath list \<Rightarrow> state \<Rightarrow> state" where
  "set_fifo n q s = s\<lparr>xnodes := (xnodes s)[n := (xnodes s ! n)\<lparr>fifo := q\<rparr>]\<rparr>"

definition arrive :: "nat \<Rightarrow> nat \<Rightarrow> xedge list \<Rightarrow> state \<Rightarrow> state" where
  "arrive n p pth s =
     s\<lparr>xnodes := (xnodes s)[p := (xnodes s ! p)\<lparr>in_temporary_web := True,
                                                  witness := Some \<lparr>wnode = n, wpath = pth\<rparr>\<rparr>]\<rparr>"

text \<open>
  The body of the loop over \<open>i\<close> (lines 145 to 225).  The result holds: whether
  \<open>fNonemptyFifo\<close> was set, whether the loop over \<open>i\<close> is left by \<open>break\<close>, the state.
\<close>

definition visit :: "nat \<Rightarrow> state \<Rightarrow> error + bool \<times> bool \<times> state" where
  "visit i s =
     (let n = xnodes s ! i in
      if \<not> reqd n then Inr (False, False, s)
      else if fifo n = [] \<or> in_permanent_web n then Inr (False, False, s)
      else
        (let pp = hd (fifo n); s1 = set_fifo i (tl (fifo n)) s in
         if endweight pp > 1
         then Inr (True, False, push_fifo i (pp\<lparr>endweight := endweight pp - 1\<rparr>) s1)
         else
           (let s2 = arrive i (point pp) (path pp) s1 in
            case scan_outgoing i (path pp) (outgoing (xnodes s2 ! point pp)) s2 of
              Inl err \<Rightarrow> Inl err
            | Inr (broke, s3) \<Rightarrow> Inr (True, broke, s3))))"

text \<open>
  The loop over \<open>i\<close>.  The result holds \<open>fNonemptyFifo\<close>, whether \<open>i < xnodes.length\<close>
  on leaving the loop, and the state.
\<close>

fun for_each_i :: "nat list \<Rightarrow> bool \<Rightarrow> state \<Rightarrow> error + bool \<times> bool \<times> state" where
  "for_each_i [] fne s = Inr (fne, False, s)"
| "for_each_i (i # rest) fne s =
     (case visit i s of
        Inl err \<Rightarrow> Inl err
      | Inr (touched, broke, s') \<Rightarrow>
          if broke then Inr (fne \<or> touched, True, s')
          else for_each_i rest (fne \<or> touched) s')"

definition round :: "state \<Rightarrow> error + bool \<times> bool \<times> state" where
  "round s = for_each_i [0..<length (xnodes s)] False s"

text \<open>The loop \<open>while ( true )\<close> of line 129; its result holds \<open>fNonemptyFifo\<close>.\<close>

partial_function (option) search_rounds :: "state \<Rightarrow> (error + bool \<times> state) option" where
  "search_rounds s =
     (case round s of
        Inl err \<Rightarrow> Some (Inl err)
      | Inr (fne, broke, s') \<Rightarrow>
          if \<not> fne \<or> broke then Some (Inr (fne, s')) else search_rounds s')"

text \<open>The loop \<open>while ( solved_reqds < reqds )\<close> of line 123.\<close>

partial_function (option) main_loop :: "nat \<Rightarrow> state \<Rightarrow> (error + state) option" where
  "main_loop reqds s =
     (if solved_reqds s < reqds
      then Option.bind (search_rounds s)
             (\<lambda>r. case r of
                     Inl err \<Rightarrow> Some (Inl err)
                   | Inr (fne, s') \<Rightarrow> if \<not> fne then Some (Inr s') else main_loop reqds s')
      else Some (Inr s))"

definition initial_state :: "xnode list \<Rightarrow> state" where
  "initial_state xs = \<lparr>xnodes = seed_fifos xs, soln = [], solved_reqds = 0\<rparr>"

text \<open>
  \<open>connect\<close> comes from \<open>connect.js\<close>, which is not part of the sources at hand; it is
  a parameter.  The result is \<open>None\<close> when the search does not return.
\<close>

type_synonym connect = "xedge list \<Rightarrow> xedge list \<Rightarrow> xnode list \<Rightarrow> xedge list"

definition steiner :: "connect \<Rightarrow> node list \<Rightarrow> edge list \<Rightarrow> node list \<Rightarrow> (error + edge list) option" where
  "steiner connect nodes edges required =
     (case build_graph nodes edges required of
        Inl err \<Rightarrow> Some (Inl err)
      | Inr (xs, xes) \<Rightarrow>
          (case main_loop (count_reqds xs) (initial_state xs) of
             None \<Rightarrow> None
           | Some (Inl err) \<Rightarrow> Some (Inl err)
           | Some (Inr s) \<Rightarrow> Some (Inr (map edge (uniqueify (connect (soln s) xes (xnodes s)))))))"

section \<open>Invariants, measures and the notions of the specification\<close>

subsection \<open>The repair step\<close>

text \<open>A repair step that adds nothing.\<close>

definition no_repair :: connect where
  "no_repair sol xes xs = sol"

definition ends :: "xedge \<Rightarrow> nat \<times> nat" where
  "ends x = (xfrom x, xto x)"

text \<open>A list of annotated edges is connected when all its edges hang together.\<close>

definition links :: "xedge list \<Rightarrow> (nat \<times> nat) set" where
  "links es = ends ` set es \<union> (ends ` set es)\<inverse>"

definition soln_connected :: "xedge list \<Rightarrow> bool" where
  "soln_connected es \<longleftrightarrow> (\<forall>x\<in>set es. \<forall>y\<in>set es. (xfrom x, xfrom y) \<in> (links es)\<^sup>*)"

text \<open>
  Modelled from the spec: \<open>connect.js\<close> is not among the sources.  The specification
  asks of the repair step only that it never removes an edge of the solution it is
  given and that it returns an already connected solution unchanged.
\<close>

definition repair_contract :: "connect \<Rightarrow> bool" where
  "repair_contract connect \<longleftrightarrow>
     (\<forall>sol xes xs. set sol \<subseteq> set (connect sol xes xs) \<and>
        (soln_connected sol \<longrightarrow> connect sol xes xs = sol))"

text \<open>
  Modelled from the spec: the repair step returns the solution it is given, augmented
  with annotated edges of the graph (its search space); it invents no edge.
\<close>

definition stays_in_graph :: "connect \<Rightarrow> bool" where
  "stays_in_graph connect \<longleftrightarrow> (\<forall>sol xes xs. set (connect sol xes xs) \<subseteq> set sol \<union> set xes)"

subsection \<open>The annotated graph as the builder leaves it\<close>

text \<open>
  \<open>get_xnode\<close> finds the first position of a node.  An annotated edge is wired when its
  ends are the first positions of the ends of the caller's edge it wraps.
\<close>

definition first_at :: "node list \<Rightarrow> node \<Rightarrow> nat \<Rightarrow> bool" where
  "first_at ns n j \<longleftrightarrow> j < length ns \<and> ns ! j = n \<and> (\<forall>m<j. ns ! m \<noteq> n)"

definition wired :: "node list \<Rightarrow> xedge \<Rightarrow> bool" where
  "wired ns x \<longleftrightarrow> first_at ns (efrom (edge x)) (xfrom x) \<and> first_at ns (eto (edge x)) (xto x) \<and>
     xweight x = eweight (edge x)"

definition dangling :: "node list \<Rightarrow> edge \<Rightarrow> bool" where
  "dangling ns e \<longleftrightarrow> efrom e \<notin> set ns \<or> eto e \<notin> set ns"

definition fresh_graph :: "node list \<Rightarrow> node list \<Rightarrow> edge list \<Rightarrow> xnode list \<times> xedge list \<Rightarrow> bool" where
  "fresh_graph ns required done g \<longleftrightarrow>
     (case g of (xs, xes) \<Rightarrow>
        map node xs = ns \<and> map reqd xs = map (is_reqd required) ns \<and> map edge xes = done \<and>
        (\<forall>x\<in>set xes. wired ns x) \<and>
        (\<forall>i<length xs.
           fifo (xs ! i) = [] \<and> \<not> in_temporary_web (xs ! i) \<and> \<not> in_permanent_web (xs ! i) \<and>
           witness (xs ! i) = None \<and> set (outgoing (xs ! i)) \<subseteq> set xes \<and>
           (\<forall>x\<in>set (outgoing (xs ! i)). xfrom x = i) \<and>
           length (outgoing (xs ! i)) \<le> length xes))"



text \<open>
  What the builder puts into an annotated node and the search has no reason to touch:
  the caller's node, the required mark, the wiring and the two flags of the repair step.
\<close>

definition wiring :: "xnode \<Rightarrow> node \<times> bool \<times> xedge list \<times> xedge list \<times> bool \<times> bool" where
  "wiring n = (node n, reqd n, outgoing n, incoming n, in_solution n, in_first_component n)"

subsection \<open>Well-formed states of the search\<close>

text \<open>
  Every reference is a position inside \<open>xnodes\<close>, every annotated edge in a queue, a
  witness or the solution is an edge of the graph, a node in the temporary web has a
  witness, and the path of a queued partial path runs over distinct nodes that are all in
  the temporary web.
\<close>

definition ppath_ok :: "xedge list \<Rightarrow> xnode list \<Rightarrow> ppath \<Rightarrow> bool" where
  "ppath_ok xes xs pp \<longleftrightarrow>
     point pp < length xs \<and> set (path pp) \<subseteq> set xes \<and>
     distinct (map xfrom (path pp) @ [point pp]) \<and>
     (\<forall>x\<in>set (path pp). xfrom x < length xs \<and> in_temporary_web (xs ! xfrom x))"

definition node_ok :: "xedge list \<Rightarrow> xnode list \<Rightarrow> nat \<Rightarrow> bool" where
  "node_ok xes xs i \<longleftrightarrow>
     set (outgoing (xs ! i)) \<subseteq> set xes \<and>
     (\<forall>x\<in>set (outgoing (xs ! i)). xfrom x = i) \<and>
     length (outgoing (xs ! i)) \<le> length xes \<and>
     (in_temporary_web (xs ! i) \<longrightarrow> (\<exists>w. witness (xs ! i) = Some w \<and> set (wpath w) \<subseteq> set xes)) \<and>
     (\<forall>pp\<in>set (fifo (xs ! i)). ppath_ok xes xs pp)"

definition graph_inv :: "xedge list \<Rightarrow> state \<Rightarrow> bool" where
  "graph_inv xes s \<longleftrightarrow>
     (\<forall>x\<in>set xes. xfrom x < length (xnodes s) \<and> xto x < length (xnodes s)) \<and>
     (\<forall>i<length (xnodes s). node_ok xes (xnodes s) i) \<and>
     set (soln s) \<subseteq> set xes"

text \<open>The partial path pushed for an outgoing edge, and the two tests of a visit.\<close>

definition child :: "xedge list \<Rightarrow> xedge \<Rightarrow> ppath" where
  "child pth out = \<lparr>point = xto out, path = pth @ [out], endweight = xweight out\<rparr>"

definition closes :: "nat \<Rightarrow> xedge \<Rightarrow> state \<Rightarrow> bool" where
  "closes n out s \<longleftrightarrow>
     (reqd (xnodes s ! xto out) \<and> xto out \<noteq> n) \<or> in_permanent_web (xnodes s ! xto out)"

definition idle :: "nat \<Rightarrow> state \<Rightarrow> bool" where
  "idle i s \<longleftrightarrow> \<not> reqd (xnodes s ! i) \<or> fifo (xnodes s ! i) = [] \<or> in_permanent_web (xnodes s ! i)"

definition exhausted :: "state \<Rightarrow> bool" where
  "exhausted s \<longleftrightarrow> list_all (\<lambda>n. \<not> reqd n \<or> fifo n = [] \<or> in_permanent_web n) (xnodes s)"

subsection \<open>A measure for the loops\<close>

text \<open>
  A queued partial path costs more the shorter its path is, by a factor that exceeds the
  number of children one arrival can push, plus the turns it still has to wait.
\<close>

definition weight_bound :: "xedge list \<Rightarrow> nat" where
  "weight_bound xes = sum_list (map (\<lambda>x. nat (xweight x - 1)) xes)"

definition unit_cost :: "xedge list \<Rightarrow> nat" where
  "unit_cost xes = length xes * weight_bound xes + 1"

definition ppath_cost :: "xedge list \<Rightarrow> nat \<Rightarrow> ppath \<Rightarrow> nat" where
  "ppath_cost xes N pp =
     unit_cost xes * (length xes + 1) ^ (N - length (path pp)) + nat (endweight pp - 1)"

definition queue_cost :: "xedge list \<Rightarrow> nat \<Rightarrow> ppath list \<Rightarrow> nat" where
  "queue_cost xes N q = sum_list (map (ppath_cost xes N) q)"

definition potential :: "xedge list \<Rightarrow> state \<Rightarrow> nat" where
  "potential xes s = sum_list (map (\<lambda>n. queue_cost xes (length (xnodes s)) (fifo n)) (xnodes s))"

subsection \<open>Observing a run\<close>

text \<open>The state in which the search starts, and the state after a number of rounds.\<close>

definition start :: "node list \<Rightarrow> edge list \<Rightarrow> node list \<Rightarrow> state" where
  "start nodes edges required =
     (case build_graph nodes edges required of
        Inl err \<Rightarrow> initial_state []
      | Inr (xs, xes) \<Rightarrow> initial_state xs)"

fun after_rounds :: "nat \<Rightarrow> state \<Rightarrow> state" where
  "after_rounds 0 s = s"
| "after_rounds (Suc k) s =
     (case round s of Inl err \<Rightarrow> s | Inr (fne, broke, s') \<Rightarrow> after_rounds k s')"

definition owner :: "state \<Rightarrow> nat \<Rightarrow> nat option" where
  "owner s p = map_option wnode (witness (xnodes s ! p))"

text \<open>The partial path that fully arrives when node \<open>i\<close> is visited, if one does.\<close>

definition arrival :: "nat \<Rightarrow> state \<Rightarrow> ppath option" where
  "arrival i s =
     (if idle i s \<or> 1 < endweight (hd (fifo (xnodes s ! i))) then None
      else Some (hd (fifo (xnodes s ! i))))"

text \<open>The total weight of a path.\<close>

definition path_weight :: "xedge list \<Rightarrow> int" where
  "path_weight pth = sum_list (map xweight pth)"


text \<open>The turn of the queue in which a partial path is popped next, up to a constant.\<close>

definition tick :: "ppath \<Rightarrow> int" where
  "tick pp = path_weight (path pp) - max 1 (endweight pp)"

definition queue_ordered :: "ppath list \<Rightarrow> bool" where
  "queue_ordered q \<longleftrightarrow> sorted (map tick q) \<and> (\<forall>pp\<in>set q. \<forall>r\<in>set q. tick r \<le> tick pp + 1)"

subsection \<open>Notions of the specification\<close>

text \<open>
  The normalizer in the words of the specification: the first occurrence of an ordered
  pair of end points wins, every later entry with the same pair is dropped.
\<close>

fun first_wins :: "xedge list \<Rightarrow> xedge list" where
  "first_wins [] = []"
| "first_wins (e # es) = e # first_wins (filter (\<lambda>x. \<not> same_ends e x) es)"

text \<open>Reachability over a list of the caller's edges, each usable in both directions.\<close>

definition edge_ends :: "edge \<Rightarrow> node \<times> node" where
  "edge_ends e = (efrom e, eto e)"

definition edge_links :: "edge list \<Rightarrow> (node \<times> node) set" where
  "edge_links es = edge_ends ` set es \<union> (edge_ends ` set es)\<inverse>"

definition joined :: "edge list \<Rightarrow> node \<Rightarrow> node \<Rightarrow> bool" where
  "joined es a b \<longleftrightarrow> (a, b) \<in> (edge_links es)\<^sup>*"

definition both_directions :: "edge list \<Rightarrow> bool" where
  "both_directions es \<longleftrightarrow>
     (\<forall>e\<in>set es. \<exists>r\<in>set es. efrom r = eto e \<and> eto r = efrom e \<and> eweight r = eweight e)"

definition positive_weights :: "edge list \<Rightarrow> bool" where
  "positive_weights es \<longleftrightarrow> (\<forall>e\<in>set es. 0 < eweight e)"

definition graph_connected :: "node list \<Rightarrow> edge list \<Rightarrow> bool" where
  "graph_connected ns es \<longleftrightarrow> (\<forall>a\<in>set ns. \<forall>b\<in>set ns. joined es a b)"

subsection \<open>Sample inputs\<close>

definition mk_edge :: "node \<Rightarrow> node \<Rightarrow> int \<Rightarrow> edge" where
  "mk_edge a b w = \<lparr>efrom = a, eto = b, eweight = w, emeta = []\<rparr>"

definition mk_xedge :: "nat \<Rightarrow> nat \<Rightarrow> int \<Rightarrow> xedge" where
  "mk_xedge f t w = \<lparr>edge = mk_edge f t w, xfrom = f, xto = t, xweight = w,
                     xin_solution = False, xin_first_component = False\<rparr>"

text \<open>A chain 0 - 1 - 2 - 3 - 4 with both directions of every edge, all of weight 1.\<close>

definition chain_edges :: "edge list" where
  "chain_edges = [mk_edge 0 1 1, mk_edge 1 0 1, mk_edge 1 2 1, mk_edge 2 1 1,
                  mk_edge 3 4 1, mk_edge 4 3 1, mk_edge 3 2 1, mk_edge 2 3 1]"

text \<open>Two sources 0 and 1 that reach node 2 at different times.\<close>

definition late_edges :: "edge list" where
  "late_edges = [mk_edge 0 2 1, mk_edge 1 2 3]"

text \<open>Source 0 reaches source 1 through 3 and 4; source 2 reaches 3 later.\<close>

definition detour_edges :: "edge list" where
  "detour_edges = [mk_edge 0 3 1, mk_edge 3 4 1, mk_edge 4 1 1, mk_edge 2 3 2]"


section \<open>Properties of the search\<close>

lemma nth_update_if: "j < length xs \<Longrightarrow> xs[i := y] ! j = (if j = i then y else xs ! j)"
  by (cases "i < length xs") (auto simp: nth_list_update)

subsection \<open>What each assignment changes\<close>

lemma length_set_permanent [simp]: "length (set_permanent i xs) = length xs"
  by (simp add: set_permanent_def)

lemma set_permanent_fields [simp]:
  assumes "j < length xs"
  shows "node (set_permanent i xs ! j) = node (xs ! j)"
    and "reqd (set_permanent i xs ! j) = reqd (xs ! j)"
    and "outgoing (set_permanent i xs ! j) = outgoing (xs ! j)"
    and "in_temporary_web (set_permanent i xs ! j) = in_temporary_web (xs ! j)"
    and "witness (set_permanent i xs ! j) = witness (xs ! j)"
    and "fifo (set_permanent i xs ! j) = fifo (xs ! j)"
    and "in_permanent_web (set_permanent i xs ! j) \<longleftrightarrow> j = i \<or> in_permanent_web (xs ! j)"
  using assms by (simp_all add: set_permanent_def nth_update_if)

lemma length_mark_steps [simp]: "length (mark_steps steps xs) = length xs"
  unfolding mark_steps_def by (induction steps arbitrary: xs) simp_all

lemma mark_steps_Nil [simp]: "mark_steps [] xs = xs"
  by (simp add: mark_steps_def)

lemma mark_steps_Cons [simp]: "mark_steps (x # steps) xs = mark_steps steps (set_permanent (xfrom x) xs)"
  by (simp add: mark_steps_def)

lemma mark_steps_fields [simp]:
  assumes "j < length xs"
  shows "node (mark_steps steps xs ! j) = node (xs ! j)"
    and "reqd (mark_steps steps xs ! j) = reqd (xs ! j)"
    and "outgoing (mark_steps steps xs ! j) = outgoing (xs ! j)"
    and "in_temporary_web (mark_steps steps xs ! j) = in_temporary_web (xs ! j)"
    and "witness (mark_steps steps xs ! j) = witness (xs ! j)"
    and "fifo (mark_steps steps xs ! j) = fifo (xs ! j)"
    and "in_permanent_web (mark_steps steps xs ! j) \<longleftrightarrow> j \<in> xfrom ` set steps \<or> in_permanent_web (xs ! j)"
  using assms by (induction steps arbitrary: xs; auto)+

lemma length_set_fifo [simp]: "length (xnodes (set_fifo i q s)) = length (xnodes s)"
  by (simp add: set_fifo_def)

lemma set_fifo_fields [simp]:
  assumes "j < length (xnodes s)"
  shows "node (xnodes (set_fifo i q s) ! j) = node (xnodes s ! j)"
    and "reqd (xnodes (set_fifo i q s) ! j) = reqd (xnodes s ! j)"
    and "outgoing (xnodes (set_fifo i q s) ! j) = outgoing (xnodes s ! j)"
    and "in_temporary_web (xnodes (set_fifo i q s) ! j) = in_temporary_web (xnodes s ! j)"
    and "in_permanent_web (xnodes (set_fifo i q s) ! j) = in_permanent_web (xnodes s ! j)"
    and "witness (xnodes (set_fifo i q s) ! j) = witness (xnodes s ! j)"
    and "fifo (xnodes (set_fifo i q s) ! j) = (if j = i then q else fifo (xnodes s ! j))"
  using assms by (simp_all add: set_fifo_def nth_update_if)

lemma set_fifo_rest [simp]:
  "soln (set_fifo i q s) = soln s" "solved_reqds (set_fifo i q s) = solved_reqds s"
  by (simp_all add: set_fifo_def)

lemma push_fifo_set_fifo: "push_fifo n pp s = set_fifo n (fifo (xnodes s ! n) @ [pp]) s"
  by (simp add: push_fifo_def set_fifo_def)

lemma length_arrive [simp]: "length (xnodes (arrive n p pth s)) = length (xnodes s)"
  by (simp add: arrive_def)

lemma arrive_fields [simp]:
  assumes "j < length (xnodes s)"
  shows "node (xnodes (arrive n p pth s) ! j) = node (xnodes s ! j)"
    and "reqd (xnodes (arrive n p pth s) ! j) = reqd (xnodes s ! j)"
    and "outgoing (xnodes (arrive n p pth s) ! j) = outgoing (xnodes s ! j)"
    and "in_permanent_web (xnodes (arrive n p pth s) ! j) = in_permanent_web (xnodes s ! j)"
    and "fifo (xnodes (arrive n p pth s) ! j) = fifo (xnodes s ! j)"
    and "in_temporary_web (xnodes (arrive n p pth s) ! j) \<longleftrightarrow> j = p \<or> in_temporary_web (xnodes s ! j)"
    and "witness (xnodes (arrive n p pth s) ! j) =
           (if j = p then Some \<lparr>wnode = n, wpath = pth\<rparr> else witness (xnodes s ! j))"
  using assms by (simp_all add: arrive_def nth_update_if)

lemma arrive_rest [simp]:
  "soln (arrive n p pth s) = soln s" "solved_reqds (arrive n p pth s) = solved_reqds s"
  by (simp_all add: arrive_def)

lemma terminal_merge_sel [simp]:
  "xnodes (terminal_merge pth out s) = set_permanent (xto out) (mark_steps pth (xnodes s))"
  "soln (terminal_merge pth out s) = soln s @ pth @ [out]"
  by (simp_all add: terminal_merge_def Let_def)

lemma collision_merge_sel [simp]:
  "xnodes (collision_merge pth w out s) = set_permanent (xto out) (mark_steps (pth @ wpath w @ [out]) (xnodes s))"
  "soln (collision_merge pth w out s) = soln s @ pth @ wpath w @ [out]"
  "solved_reqds (collision_merge pth w out s) = solved_reqds s + 2"
  by (simp_all add: collision_merge_def Let_def)

subsection \<open>The invariant survives every assignment\<close>

lemma ppath_ok_mono:
  assumes "ppath_ok xes xs pp" "length xs' = length xs"
    and "\<And>j. j < length xs \<Longrightarrow> in_temporary_web (xs ! j) \<Longrightarrow> in_temporary_web (xs' ! j)"
  shows "ppath_ok xes xs' pp"
  using assms unfolding ppath_ok_def by auto

lemma graph_inv_evolve:
  assumes inv: "graph_inv xes s"
    and len: "length (xnodes s') = length (xnodes s)"
    and out: "\<And>j. j < length (xnodes s) \<Longrightarrow> outgoing (xnodes s' ! j) = outgoing (xnodes s ! j)"
    and mono: "\<And>j. j < length (xnodes s) \<Longrightarrow> in_temporary_web (xnodes s ! j) \<Longrightarrow> in_temporary_web (xnodes s' ! j)"
    and wit: "\<And>j. j < length (xnodes s) \<Longrightarrow> in_temporary_web (xnodes s' ! j) \<Longrightarrow>
                (in_temporary_web (xnodes s ! j) \<and> witness (xnodes s' ! j) = witness (xnodes s ! j)) \<or>
                (\<exists>w. witness (xnodes s' ! j) = Some w \<and> set (wpath w) \<subseteq> set xes)"
    and queue: "\<And>j pp. j < length (xnodes s) \<Longrightarrow> pp \<in> set (fifo (xnodes s' ! j)) \<Longrightarrow>
                (\<exists>k<length (xnodes s). pp \<in> set (fifo (xnodes s ! k))) \<or> ppath_ok xes (xnodes s') pp"
    and sol: "set (soln s') \<subseteq> set xes"
  shows "graph_inv xes s'"
proof -
  have ok: "ppath_ok xes (xnodes s') pp" if "j < length (xnodes s)" "pp \<in> set (fifo (xnodes s' ! j))" for j pp
  proof -
    from queue [OF that] show ?thesis
    proof
      assume "\<exists>k<length (xnodes s). pp \<in> set (fifo (xnodes s ! k))"
      then obtain k where "k < length (xnodes s)" "pp \<in> set (fifo (xnodes s ! k))" by blast
      with inv have "ppath_ok xes (xnodes s) pp"
        by (auto simp: graph_inv_def node_ok_def)
      then show ?thesis using len mono by (rule ppath_ok_mono)
    qed
  qed
  have "node_ok xes (xnodes s') j" if j: "j < length (xnodes s)" for j
  proof -
    from inv j have old: "node_ok xes (xnodes s) j" by (simp add: graph_inv_def)
    show ?thesis
      unfolding node_ok_def
    proof (intro conjI impI ballI)
      show "set (outgoing (xnodes s' ! j)) \<subseteq> set xes"
        using old out [OF j] by (simp add: node_ok_def)
      show "xfrom x = j" if "x \<in> set (outgoing (xnodes s' ! j))" for x
        using old out [OF j] that by (simp add: node_ok_def)
      show "length (outgoing (xnodes s' ! j)) \<le> length xes"
        using old out [OF j] by (simp add: node_ok_def)
      show "\<exists>w. witness (xnodes s' ! j) = Some w \<and> set (wpath w) \<subseteq> set xes"
        if "in_temporary_web (xnodes s' ! j)"
        using wit [OF j that] old by (auto simp: node_ok_def)
      show "ppath_ok xes (xnodes s') pp" if "pp \<in> set (fifo (xnodes s' ! j))" for pp
        using ok [OF j that] .
    qed
  qed
  with inv len sol show ?thesis by (simp add: graph_inv_def)
qed

lemma graph_inv_set_fifo:
  assumes "graph_inv xes s" "\<And>pp. pp \<in> set q \<Longrightarrow> ppath_ok xes (xnodes s) pp"
  shows "graph_inv xes (set_fifo i q s)"
proof (rule graph_inv_evolve [OF assms(1)])
  fix j pp
  assume j: "j < length (xnodes s)" and pp: "pp \<in> set (fifo (xnodes (set_fifo i q s) ! j))"
  have "ppath_ok xes (xnodes (set_fifo i q s)) pp" if "pp \<in> set q"
    using assms(2) [OF that] by (rule ppath_ok_mono) simp_all
  with j pp show "(\<exists>k<length (xnodes s). pp \<in> set (fifo (xnodes s ! k))) \<or>
      ppath_ok xes (xnodes (set_fifo i q s)) pp"
    by (auto split: if_splits)
qed (use assms(1) in \<open>simp_all add: graph_inv_def\<close>)

lemma graph_inv_arrive:
  assumes "graph_inv xes s" "set pth \<subseteq> set xes"
  shows "graph_inv xes (arrive n p pth s)"
proof (rule graph_inv_evolve [OF assms(1)])
  fix j
  assume "j < length (xnodes s)" "in_temporary_web (xnodes (arrive n p pth s) ! j)"
  then show "(in_temporary_web (xnodes s ! j) \<and>
      witness (xnodes (arrive n p pth s) ! j) = witness (xnodes s ! j)) \<or>
      (\<exists>w. witness (xnodes (arrive n p pth s) ! j) = Some w \<and> set (wpath w) \<subseteq> set xes)"
    using assms(2) by auto
next
  fix j pp
  assume "j < length (xnodes s)" "pp \<in> set (fifo (xnodes (arrive n p pth s) ! j))"
  then show "(\<exists>k<length (xnodes s). pp \<in> set (fifo (xnodes s ! k))) \<or>
      ppath_ok xes (xnodes (arrive n p pth s)) pp"
    by auto
qed (use assms(1) in \<open>simp_all add: graph_inv_def\<close>)

lemma graph_inv_terminal_merge:
  assumes "graph_inv xes s" "set pth \<subseteq> set xes" "out \<in> set xes"
  shows "graph_inv xes (terminal_merge pth out s)"
proof (rule graph_inv_evolve [OF assms(1)])
  fix j pp
  assume "j < length (xnodes s)" "pp \<in> set (fifo (xnodes (terminal_merge pth out s) ! j))"
  then show "(\<exists>k<length (xnodes s). pp \<in> set (fifo (xnodes s ! k))) \<or>
      ppath_ok xes (xnodes (terminal_merge pth out s)) pp"
    by auto
qed (use assms in \<open>simp_all add: graph_inv_def\<close>)

lemma graph_inv_collision_merge:
  assumes "graph_inv xes s" "set pth \<subseteq> set xes" "set (wpath w) \<subseteq> set xes" "out \<in> set xes"
  shows "graph_inv xes (collision_merge pth w out s)"
proof (rule graph_inv_evolve [OF assms(1)])
  fix j pp
  assume "j < length (xnodes s)" "pp \<in> set (fifo (xnodes (collision_merge pth w out s) ! j))"
  then show "(\<exists>k<length (xnodes s). pp \<in> set (fifo (xnodes s ! k))) \<or>
      ppath_ok xes (xnodes (collision_merge pth w out s)) pp"
    by auto
qed (use assms in \<open>simp_all add: graph_inv_def\<close>)

subsection \<open>The loop over the outgoing edges\<close>

lemma scan_outgoing_length:
  "scan_outgoing n pth outs s = Inr (b, s') \<Longrightarrow> length (xnodes s') = length (xnodes s)"
  by (induction outs arbitrary: s)
     (auto simp: Let_def push_fifo_set_fifo split: if_splits option.splits)

lemma length_push_fifo [simp]: "length (xnodes (push_fifo n pp s)) = length (xnodes s)"
  by (simp add: push_fifo_set_fifo)

lemma scan_outgoing_closes:
  "closes n out s \<Longrightarrow> scan_outgoing n pth (out # rest) s = Inr (True, terminal_merge pth out s)"
  by (auto simp: closes_def Let_def)

lemma scan_outgoing_collides:
  "\<not> closes n out s \<Longrightarrow> in_temporary_web (xnodes s ! xto out) \<Longrightarrow>
   witness (xnodes s ! xto out) = Some w \<Longrightarrow> wnode w \<noteq> n \<Longrightarrow>
   scan_outgoing n pth (out # rest) s = Inr (True, collision_merge pth w out s)"
  by (auto simp: closes_def Let_def)

lemma scan_outgoing_seen:
  "\<not> closes n out s \<Longrightarrow> in_temporary_web (xnodes s ! xto out) \<Longrightarrow>
   witness (xnodes s ! xto out) = Some w \<Longrightarrow> wnode w = n \<Longrightarrow>
   scan_outgoing n pth (out # rest) s = scan_outgoing n pth rest s"
  by (auto simp: closes_def Let_def)

lemma scan_outgoing_null:
  "\<not> closes n out s \<Longrightarrow> in_temporary_web (xnodes s ! xto out) \<Longrightarrow>
   witness (xnodes s ! xto out) = None \<Longrightarrow>
   scan_outgoing n pth (out # rest) s = Inl TypeError"
  by (auto simp: closes_def Let_def)

lemma scan_outgoing_push:
  "\<not> closes n out s \<Longrightarrow> \<not> in_temporary_web (xnodes s ! xto out) \<Longrightarrow>
   scan_outgoing n pth (out # rest) s = scan_outgoing n pth rest (push_fifo n (child pth out) s)"
  by (auto simp: closes_def Let_def child_def)

declare scan_outgoing.simps(2) [simp del]

lemma scan_outgoing_cases:
  obtains (closes) "closes n out s"
  | (collides) w where "\<not> closes n out s" "in_temporary_web (xnodes s ! xto out)"
      "witness (xnodes s ! xto out) = Some w" "wnode w \<noteq> n"
  | (seen) w where "\<not> closes n out s" "in_temporary_web (xnodes s ! xto out)"
      "witness (xnodes s ! xto out) = Some w" "wnode w = n"
  | (null) "\<not> closes n out s" "in_temporary_web (xnodes s ! xto out)"
      "witness (xnodes s ! xto out) = None"
  | (push) "\<not> closes n out s" "\<not> in_temporary_web (xnodes s ! xto out)"
  by (cases "witness (xnodes s ! xto out)") auto

lemma scan_outgoing_fifo:
  assumes "scan_outgoing n pth outs s = Inr (b, s')" "n < length (xnodes s)"
  shows "\<exists>kids. fifo (xnodes s' ! n) = fifo (xnodes s ! n) @ kids \<and> length kids \<le> length outs \<and>
           set kids \<subseteq> child pth ` set outs"
  using assms
proof (induction outs arbitrary: s)
  case Nil
  then show ?case by simp
next
  case (Cons out outs)
  show ?case
  proof (cases n out s rule: scan_outgoing_cases)
    case closes
    with Cons.prems show ?thesis by (auto simp: scan_outgoing_closes)
  next
    case collides
    with Cons.prems show ?thesis by (auto simp: scan_outgoing_collides)
  next
    case seen
    with Cons.prems have "scan_outgoing n pth outs s = Inr (b, s')"
      by (simp add: scan_outgoing_seen)
    from Cons.IH [OF this Cons.prems(2)] show ?thesis by auto
  next
    case push
    let ?s1 = "push_fifo n (child pth out) s"
    from push Cons.prems have "scan_outgoing n pth outs ?s1 = Inr (b, s')"
      by (simp add: scan_outgoing_push)
    from Cons.IH [OF this] Cons.prems(2)
    obtain kids where "fifo (xnodes s' ! n) = fifo (xnodes ?s1 ! n) @ kids"
      "length kids \<le> length outs" "set kids \<subseteq> child pth ` set outs"
      by (auto simp: push_fifo_set_fifo)
    with Cons.prems(2) have "fifo (xnodes s' ! n) = fifo (xnodes s ! n) @ (child pth out # kids)"
      "length (child pth out # kids) \<le> length (out # outs)"
      "set (child pth out # kids) \<subseteq> child pth ` set (out # outs)"
      by (auto simp: push_fifo_set_fifo)
    then show ?thesis by blast
  next
    case null
    with Cons.prems show ?thesis by (simp add: scan_outgoing_null)
  qed
qed

lemma scan_outgoing_others:
  assumes "scan_outgoing n pth outs s = Inr (b, s')" "j < length (xnodes s)"
  shows "(j \<noteq> n \<longrightarrow> fifo (xnodes s' ! j) = fifo (xnodes s ! j)) \<and>
     in_temporary_web (xnodes s' ! j) = in_temporary_web (xnodes s ! j) \<and>
     witness (xnodes s' ! j) = witness (xnodes s ! j) \<and>
     outgoing (xnodes s' ! j) = outgoing (xnodes s ! j) \<and>
     node (xnodes s' ! j) = node (xnodes s ! j) \<and>
     reqd (xnodes s' ! j) = reqd (xnodes s ! j) \<and>
     (in_permanent_web (xnodes s ! j) \<longrightarrow> in_permanent_web (xnodes s' ! j))"
  using assms
proof (induction outs arbitrary: s)
  case Nil
  then show ?case by simp
next
  case (Cons out outs)
  show ?case
  proof (cases n out s rule: scan_outgoing_cases)
    case closes
    with Cons.prems show ?thesis by (auto simp: scan_outgoing_closes)
  next
    case collides
    with Cons.prems show ?thesis by (auto simp: scan_outgoing_collides)
  next
    case seen
    with Cons.prems have "scan_outgoing n pth outs s = Inr (b, s')"
      by (simp add: scan_outgoing_seen)
    from Cons.IH [OF this Cons.prems(2)] show ?thesis .
  next
    case push
    let ?s1 = "push_fifo n (child pth out) s"
    from push Cons.prems have "scan_outgoing n pth outs ?s1 = Inr (b, s')"
      by (simp add: scan_outgoing_push)
    from Cons.IH [OF this] Cons.prems(2) show ?thesis
      by (simp add: push_fifo_set_fifo)
  next
    case null
    with Cons.prems show ?thesis by (simp add: scan_outgoing_null)
  qed
qed

subsection \<open>The potential of the queues\<close>

lemma queue_cost_append [simp]:
  "queue_cost xes N (q @ r) = queue_cost xes N q + queue_cost xes N r"
  by (simp add: queue_cost_def)

lemma queue_cost_Nil [simp]: "queue_cost xes N [] = 0"
  by (simp add: queue_cost_def)

lemma queue_cost_Cons [simp]: "queue_cost xes N (pp # q) = ppath_cost xes N pp + queue_cost xes N q"
  by (simp add: queue_cost_def)

lemma potential_fifo_change:
  assumes len: "length (xnodes s') = length (xnodes s)" and n: "n < length (xnodes s)"
    and others: "\<And>j. j < length (xnodes s) \<Longrightarrow> j \<noteq> n \<Longrightarrow> fifo (xnodes s' ! j) = fifo (xnodes s ! j)"
  shows "potential xes s' + queue_cost xes (length (xnodes s)) (fifo (xnodes s ! n))
       = potential xes s + queue_cost xes (length (xnodes s)) (fifo (xnodes s' ! n))"
proof -
  define f :: "xnode \<Rightarrow> nat" where "f = (\<lambda>x. queue_cost xes (length (xnodes s)) (fifo x))"
  have "map f (xnodes s') = (map f (xnodes s))[n := f (xnodes s' ! n)]"
    using len others by (intro nth_equalityI) (auto simp: nth_update_if f_def)
  then have "sum_list (map f (xnodes s')) = sum_list (map f (xnodes s)) + f (xnodes s' ! n) - f (xnodes s ! n)"
    using n by (simp add: sum_list_update)
  moreover have "f (xnodes s ! n) \<le> sum_list (map f (xnodes s))"
    using n by (intro member_le_sum_list) auto
  ultimately show ?thesis
    by (simp add: potential_def f_def len)
qed

lemma potential_same_fifos:
  assumes len: "length (xnodes s') = length (xnodes s)"
    and same: "\<And>j. j < length (xnodes s) \<Longrightarrow> fifo (xnodes s' ! j) = fifo (xnodes s ! j)"
  shows "potential xes s' = potential xes s"
proof -
  have "map (\<lambda>n. queue_cost xes (length (xnodes s)) (fifo n)) (xnodes s')
      = map (\<lambda>n. queue_cost xes (length (xnodes s)) (fifo n)) (xnodes s)"
    using len same by (intro nth_equalityI) auto
  then show ?thesis by (simp add: potential_def len)
qed

lemma ppath_cost_child:
  assumes "out \<in> set xes"
  shows "ppath_cost xes N (child pth out)
       \<le> unit_cost xes * (length xes + 1) ^ (N - Suc (length pth)) + weight_bound xes"
proof -
  have "nat (xweight out - 1) \<le> weight_bound xes"
    unfolding weight_bound_def using assms by (intro member_le_sum_list) auto
  then show ?thesis by (simp add: ppath_cost_def child_def)
qed

lemma queue_cost_kids:
  assumes "set kids \<subseteq> child pth ` set outs" "set outs \<subseteq> set xes"
  shows "queue_cost xes N kids
       \<le> length kids * (unit_cost xes * (length xes + 1) ^ (N - Suc (length pth)) + weight_bound xes)"
  using assms(1)
proof (induction kids)
  case Nil
  then show ?case by simp
next
  case (Cons k kids)
  then obtain out where "out \<in> set outs" "k = child pth out" by auto
  with assms(2) have "ppath_cost xes N k
       \<le> unit_cost xes * (length xes + 1) ^ (N - Suc (length pth)) + weight_bound xes"
    using ppath_cost_child by blast
  moreover from Cons have "queue_cost xes N kids
       \<le> length kids * (unit_cost xes * (length xes + 1) ^ (N - Suc (length pth)) + weight_bound xes)"
    by simp
  ultimately show ?case by simp
qed

lemma ppath_ok_length:
  assumes "ppath_ok xes xs pp"
  shows "length (path pp) < length xs"
proof -
  let ?l = "map xfrom (path pp) @ [point pp]"
  from assms have d: "distinct ?l" and sub: "set ?l \<subseteq> {..<length xs}"
    by (auto simp: ppath_ok_def)
  have "length ?l = card (set ?l)" using distinct_card [OF d] by presburger
  also have "\<dots> \<le> card {..<length xs}" using sub by (intro card_mono) auto
  finally show ?thesis by simp
qed

text \<open>Processing one partial path costs more than all the children it can push.\<close>

lemma children_cheaper:
  assumes "length pth < N" "k \<le> length xes"
  shows "k * (unit_cost xes * (length xes + 1) ^ (N - Suc (length pth)) + weight_bound xes)
       < unit_cost xes * (length xes + 1) ^ (N - length pth)"
proof -
  let ?D = "length xes"
  let ?X = "(?D + 1) ^ (N - Suc (length pth))"
  let ?W = "weight_bound xes"
  let ?U = "?D * ?W + 1"
  have X: "1 \<le> ?X" by simp
  have "N - length pth = Suc (N - Suc (length pth))" using assms(1) by simp
  then have pow: "(?D + 1) ^ (N - length pth) = (?D + 1) * ?X"
    by (simp only: power_Suc)
  have "k * (?U * ?X + ?W) \<le> ?D * (?U * ?X + ?W)"
    using assms(2) by (rule mult_le_mono1)
  also have "\<dots> = ?D * ?U * ?X + ?D * ?W" by (simp add: algebra_simps)
  also have "\<dots> < ?D * ?U * ?X + ?U * ?X"
  proof -
    have "?D * ?W < ?U * 1" by simp
    also have "\<dots> \<le> ?U * ?X" using X by (rule mult_le_mono2)
    finally show ?thesis by simp
  qed
  also have "\<dots> = ?U * ((?D + 1) * ?X)" by (simp add: algebra_simps)
  finally show ?thesis
    unfolding unit_cost_def pow .
qed

subsection \<open>One visit keeps the invariant and lowers the potential\<close>

lemma graph_inv_nodeD:
  assumes "graph_inv xes s" "i < length (xnodes s)"
  shows "set (outgoing (xnodes s ! i)) \<subseteq> set xes"
    and "\<And>x. x \<in> set (outgoing (xnodes s ! i)) \<Longrightarrow> xfrom x = i"
    and "length (outgoing (xnodes s ! i)) \<le> length xes"
    and "in_temporary_web (xnodes s ! i) \<Longrightarrow> \<exists>w. witness (xnodes s ! i) = Some w \<and> set (wpath w) \<subseteq> set xes"
    and "\<And>pp. pp \<in> set (fifo (xnodes s ! i)) \<Longrightarrow> ppath_ok xes (xnodes s) pp"
  using assms by (auto simp: graph_inv_def node_ok_def)

lemma graph_inv_edgeD:
  assumes "graph_inv xes s" "x \<in> set xes"
  shows "xfrom x < length (xnodes s)" "xto x < length (xnodes s)"
  using assms by (auto simp: graph_inv_def)

lemma graph_inv_push_fifo:
  assumes "graph_inv xes s" "n < length (xnodes s)" "ppath_ok xes (xnodes s) pp"
  shows "graph_inv xes (push_fifo n pp s)"
  unfolding push_fifo_set_fifo
  using assms graph_inv_nodeD(5) [OF assms(1,2)] by (intro graph_inv_set_fifo) auto

lemma scan_outgoing_inv:
  assumes "graph_inv xes s" "n < length (xnodes s)"
    and "set outs \<subseteq> set xes" "\<forall>x\<in>set outs. xfrom x = p"
    and "set pth \<subseteq> set xes" "in_temporary_web (xnodes s ! p)" "p < length (xnodes s)"
    and "\<forall>x\<in>set pth. in_temporary_web (xnodes s ! xfrom x)"
    and "distinct (map xfrom pth @ [p])"
  shows "\<exists>b s'. scan_outgoing n pth outs s = Inr (b, s') \<and> graph_inv xes s'"
  using assms
proof (induction outs arbitrary: s)
  case Nil
  then show ?case by auto
next
  case (Cons out outs)
  from Cons.prems have out: "out \<in> set xes" "xfrom out = p" by auto
  then have to: "xto out < length (xnodes s)"
    using Cons.prems(1) by (simp add: graph_inv_edgeD)
  show ?case
  proof (cases n out s rule: scan_outgoing_cases)
    case closes
    then show ?thesis
      using Cons.prems out by (auto simp: scan_outgoing_closes graph_inv_terminal_merge)
  next
    case (collides w)
    moreover from graph_inv_nodeD(4) [OF Cons.prems(1) to] collides
    have "set (wpath w) \<subseteq> set xes" by auto
    ultimately show ?thesis
      using Cons.prems out by (auto simp: scan_outgoing_collides graph_inv_collision_merge)
  next
    case (seen w)
    then have "scan_outgoing n pth (out # outs) s = scan_outgoing n pth outs s"
      by (simp add: scan_outgoing_seen)
    moreover have "\<exists>b s'. scan_outgoing n pth outs s = Inr (b, s') \<and> graph_inv xes s'"
      using Cons.prems by (intro Cons.IH) auto
    ultimately show ?thesis by simp
  next
    case null
    with graph_inv_nodeD(4) [OF Cons.prems(1) to] show ?thesis by auto
  next
    case push
    let ?s1 = "push_fifo n (child pth out) s"
    have fresh: "xto out \<notin> set (map xfrom pth @ [p])"
      using push(2) Cons.prems(6,8) by auto
    have "ppath_ok xes (xnodes s) (child pth out)"
      unfolding ppath_ok_def child_def
      using Cons.prems out to fresh by (auto simp: graph_inv_edgeD)
    then have inv1: "graph_inv xes ?s1"
      using Cons.prems(1,2) by (intro graph_inv_push_fifo)
    have "\<exists>b s'. scan_outgoing n pth outs ?s1 = Inr (b, s') \<and> graph_inv xes s'"
    proof (rule Cons.IH [OF inv1])
      show "in_temporary_web (xnodes ?s1 ! p)"
        using Cons.prems by (simp add: push_fifo_set_fifo)
      show "\<forall>x\<in>set pth. in_temporary_web (xnodes ?s1 ! xfrom x)"
        using Cons.prems by (auto simp: push_fifo_set_fifo graph_inv_edgeD)
    qed (use Cons.prems in auto)
    with push show ?thesis by (simp add: scan_outgoing_push)
  qed
qed

lemma scan_outgoing_potential:
  assumes scan: "scan_outgoing n pth outs s = Inr (b, s')" and n: "n < length (xnodes s)"
    and outs: "set outs \<subseteq> set xes"
  shows "potential xes s' \<le> potential xes s
       + length outs * (unit_cost xes * (length xes + 1) ^ (length (xnodes s) - Suc (length pth)) + weight_bound xes)"
proof -
  let ?N = "length (xnodes s)"
  let ?c = "unit_cost xes * (length xes + 1) ^ (?N - Suc (length pth)) + weight_bound xes"
  from scan_outgoing_fifo [OF scan n] obtain kids where
    kids: "fifo (xnodes s' ! n) = fifo (xnodes s ! n) @ kids" "length kids \<le> length outs"
      "set kids \<subseteq> child pth ` set outs"
    by blast
  have "potential xes s' + queue_cost xes ?N (fifo (xnodes s ! n))
      = potential xes s + queue_cost xes ?N (fifo (xnodes s' ! n))"
    using scan_outgoing_length [OF scan] n scan_outgoing_others [OF scan]
    by (intro potential_fifo_change) auto
  then have "potential xes s' = potential xes s + queue_cost xes ?N kids"
    by (simp add: kids(1))
  also have "queue_cost xes ?N kids \<le> length kids * ?c"
    using kids(3) outs by (rule queue_cost_kids)
  also have "length kids * ?c \<le> length outs * ?c"
    using kids(2) by (rule mult_le_mono1)
  finally show ?thesis by simp
qed

lemma visit_idle: "idle i s \<Longrightarrow> visit i s = Inr (False, False, s)"
  by (auto simp: visit_def idle_def Let_def)

lemma visit_requeue:
  assumes "\<not> idle i s" "fifo (xnodes s ! i) = pp # rest" "1 < endweight pp"
  shows "visit i s = Inr (True, False, push_fifo i (pp\<lparr>endweight := endweight pp - 1\<rparr>) (set_fifo i rest s))"
  using assms by (auto simp: visit_def idle_def Let_def)

lemma visit_arrive:
  assumes "\<not> idle i s" "fifo (xnodes s ! i) = pp # rest" "\<not> 1 < endweight pp"
    and "s2 = arrive i (point pp) (path pp) (set_fifo i rest s)"
    and "scan_outgoing i (path pp) (outgoing (xnodes s2 ! point pp)) s2 = Inr (b, s3)"
  shows "visit i s = Inr (True, b, s3)"
  using assms by (auto simp: visit_def idle_def Let_def)

lemma visit_busy:
  assumes inv: "graph_inv xes s" and i: "i < length (xnodes s)" and busy: "\<not> idle i s"
  shows "\<exists>b s'. visit i s = Inr (True, b, s') \<and> graph_inv xes s' \<and>
           potential xes s' < potential xes s"
proof -
  let ?N = "length (xnodes s)"
  from busy obtain pp rest where q: "fifo (xnodes s ! i) = pp # rest"
    by (cases "fifo (xnodes s ! i)") (auto simp: idle_def)
  from graph_inv_nodeD(5) [OF inv i] q
  have pp: "ppath_ok xes (xnodes s) pp" and rest: "\<And>r. r \<in> set rest \<Longrightarrow> ppath_ok xes (xnodes s) r"
    by auto
  let ?s1 = "set_fifo i rest s"
  have inv1: "graph_inv xes ?s1" using inv rest by (rule graph_inv_set_fifo)
  have pot1: "potential xes ?s1 + ppath_cost xes ?N pp = potential xes s"
    using potential_fifo_change [of ?s1 s i xes] i q by simp
  show ?thesis
  proof (cases "1 < endweight pp")
    case True
    let ?pp = "pp\<lparr>endweight := endweight pp - 1\<rparr>"
    let ?s2 = "push_fifo i ?pp ?s1"
    have "ppath_ok xes (xnodes ?s1) ?pp"
      using pp by (auto simp: ppath_ok_def)
    then have inv2: "graph_inv xes ?s2"
      using inv1 i by (intro graph_inv_push_fifo) simp_all
    have "potential xes ?s2 + queue_cost xes ?N (fifo (xnodes ?s1 ! i))
        = potential xes ?s1 + queue_cost xes ?N (fifo (xnodes ?s2 ! i))"
      using potential_fifo_change [of ?s2 ?s1 i xes] i by (simp add: push_fifo_set_fifo)
    then have "potential xes ?s2 = potential xes ?s1 + ppath_cost xes ?N ?pp"
      using i by (simp add: push_fifo_set_fifo)
    moreover have "ppath_cost xes ?N ?pp < ppath_cost xes ?N pp"
      using True by (simp add: ppath_cost_def)
    ultimately have "potential xes ?s2 < potential xes s"
      using pot1 by simp
    with inv2 visit_requeue [OF busy q True] show ?thesis by blast
  next
    case False
    let ?p = "point pp"
    let ?pth = "path pp"
    let ?s2 = "arrive i ?p ?pth ?s1"
    let ?outs = "outgoing (xnodes ?s2 ! ?p)"
    from pp have p: "?p < ?N" and pth: "set ?pth \<subseteq> set xes"
      and froms: "\<forall>x\<in>set ?pth. xfrom x < ?N \<and> in_temporary_web (xnodes s ! xfrom x)"
      and dist: "distinct (map xfrom ?pth @ [?p])"
      by (auto simp: ppath_ok_def)
    have outs_eq: "?outs = outgoing (xnodes s ! ?p)" using p by simp
    have inv2: "graph_inv xes ?s2" using inv1 pth by (rule graph_inv_arrive)
    have "\<exists>b s'. scan_outgoing i ?pth ?outs ?s2 = Inr (b, s') \<and> graph_inv xes s'"
    proof (rule scan_outgoing_inv [OF inv2 _ _ _ pth _ _ _ dist])
      show "set ?outs \<subseteq> set xes" "\<forall>x\<in>set ?outs. xfrom x = ?p"
        unfolding outs_eq using graph_inv_nodeD(1,2) [OF inv p] by auto
      show "\<forall>x\<in>set ?pth. in_temporary_web (xnodes ?s2 ! xfrom x)"
        using froms by auto
    qed (use i p in simp_all)
    then obtain b s3 where scan: "scan_outgoing i ?pth ?outs ?s2 = Inr (b, s3)"
      and inv3: "graph_inv xes s3" by blast
    have "potential xes s3 \<le> potential xes ?s2
       + length ?outs * (unit_cost xes * (length xes + 1) ^ (length (xnodes ?s2) - Suc (length ?pth)) + weight_bound xes)"
      using scan
    proof (rule scan_outgoing_potential)
      show "set ?outs \<subseteq> set xes"
        unfolding outs_eq using graph_inv_nodeD(1) [OF inv p] .
    qed (use i in simp)
    moreover have "potential xes ?s2 = potential xes ?s1"
      by (rule potential_same_fifos) simp_all
    moreover have "length ?outs * (unit_cost xes * (length xes + 1) ^ (?N - Suc (length ?pth)) + weight_bound xes)
        < unit_cost xes * (length xes + 1) ^ (?N - length ?pth)"
      using ppath_ok_length [OF pp] graph_inv_nodeD(3) [OF inv p]
      by (intro children_cheaper) (simp_all add: outs_eq)
    moreover have "unit_cost xes * (length xes + 1) ^ (?N - length ?pth) \<le> ppath_cost xes ?N pp"
      by (simp add: ppath_cost_def)
    ultimately have "potential xes s3 < potential xes s"
      using pot1 by simp
    with inv3 visit_arrive [OF busy q False refl scan] show ?thesis by blast
  qed
qed

lemma visit_length:
  assumes "visit i s = Inr (t, b, s')" "i < length (xnodes s)"
  shows "length (xnodes s') = length (xnodes s)"
  using assms
  by (auto simp: visit_def Let_def push_fifo_set_fifo split: if_splits sum.splits
      dest!: scan_outgoing_length)

subsection \<open>The loops return\<close>

lemma for_each_i_run:
  assumes "graph_inv xes s" "\<forall>i\<in>set is. i < length (xnodes s)"
  shows "\<exists>fne' b s'. for_each_i is fne s = Inr (fne', b, s') \<and> graph_inv xes s' \<and>
           length (xnodes s') = length (xnodes s) \<and>
           ((fne' = fne \<and> \<not> b \<and> s' = s \<and> (\<forall>i\<in>set is. idle i s)) \<or>
            (fne' \<and> potential xes s' < potential xes s))"
  using assms
proof (induction "is" arbitrary: fne s)
  case Nil
  then show ?case by auto
next
  case (Cons i rest)
  show ?case
  proof (cases "idle i s")
    case True
    then have "for_each_i (i # rest) fne s = for_each_i rest fne s"
      by (simp add: visit_idle)
    moreover from Cons.IH [of s fne] Cons.prems
    obtain fne' b s' where "for_each_i rest fne s = Inr (fne', b, s')" "graph_inv xes s'"
      "length (xnodes s') = length (xnodes s)"
      "(fne' = fne \<and> \<not> b \<and> s' = s \<and> (\<forall>i\<in>set rest. idle i s)) \<or>
       (fne' \<and> potential xes s' < potential xes s)"
      by auto
    ultimately show ?thesis using True by auto
  next
    case False
    from Cons.prems have i: "i < length (xnodes s)" by simp
    from visit_busy [OF Cons.prems(1) i False]
    obtain b s1 where v: "visit i s = Inr (True, b, s1)" and inv1: "graph_inv xes s1"
      and pot1: "potential xes s1 < potential xes s"
      by blast
    have len1: "length (xnodes s1) = length (xnodes s)"
      using v i by (rule visit_length)
    show ?thesis
    proof (cases b)
      case True
      with v inv1 pot1 len1 show ?thesis by auto
    next
      case nobreak: False
      from Cons.IH [of s1 True] inv1 len1 Cons.prems(2)
      obtain fne' b' s' where "for_each_i rest True s1 = Inr (fne', b', s')" "graph_inv xes s'"
        "length (xnodes s') = length (xnodes s1)"
        "(fne' = True \<and> \<not> b' \<and> s' = s1 \<and> (\<forall>i\<in>set rest. idle i s1)) \<or>
         (fne' \<and> potential xes s' < potential xes s1)"
        by auto
      with v nobreak pot1 len1 show ?thesis by auto
    qed
  qed
qed

lemma exhausted_idle: "exhausted s \<longleftrightarrow> (\<forall>i<length (xnodes s). idle i s)"
  by (simp add: exhausted_def idle_def list_all_length)

lemma round_run:
  assumes "graph_inv xes s"
  shows "\<exists>fne b s'. round s = Inr (fne, b, s') \<and> graph_inv xes s' \<and>
           ((\<not> fne \<and> \<not> b \<and> s' = s \<and> exhausted s) \<or> (fne \<and> potential xes s' < potential xes s))"
proof -
  from for_each_i_run [OF assms, of "[0..<length (xnodes s)]" False]
  obtain fne b s' where "round s = Inr (fne, b, s')" "graph_inv xes s'"
    "(fne = False \<and> \<not> b \<and> s' = s \<and> (\<forall>i\<in>set [0..<length (xnodes s)]. idle i s)) \<or>
     (fne \<and> potential xes s' < potential xes s)"
    by (auto simp: round_def)
  then show ?thesis by (auto simp: exhausted_idle)
qed

lemma search_rounds_run:
  assumes "graph_inv xes s"
  shows "\<exists>fne s'. search_rounds s = Some (Inr (fne, s')) \<and> graph_inv xes s' \<and>
           (if fne then potential xes s' < potential xes s
            else potential xes s' \<le> potential xes s \<and> exhausted s')"
  using assms
proof (induction "potential xes s" arbitrary: s rule: less_induct)
  case less
  from round_run [OF less.prems]
  obtain fne b s1 where r: "round s = Inr (fne, b, s1)" and inv1: "graph_inv xes s1"
    and alt: "(\<not> fne \<and> \<not> b \<and> s1 = s \<and> exhausted s) \<or> (fne \<and> potential xes s1 < potential xes s)"
    by blast
  show ?case
  proof (cases "\<not> fne \<or> b")
    case True
    then have "search_rounds s = Some (Inr (fne, s1))"
      using r by (subst search_rounds.simps) simp
    with inv1 alt show ?thesis by auto
  next
    case False
    then have again: "search_rounds s = search_rounds s1"
      using r by (subst search_rounds.simps) simp
    from False alt have pot: "potential xes s1 < potential xes s" by auto
    from less.hyps [OF pot inv1]
    obtain fne' s' where "search_rounds s1 = Some (Inr (fne', s'))" "graph_inv xes s'"
      "if fne' then potential xes s' < potential xes s1
       else potential xes s' \<le> potential xes s1 \<and> exhausted s'"
      by blast
    with again pot show ?thesis by (auto split: if_splits)
  qed
qed

lemma main_loop_run:
  assumes "graph_inv xes s"
  shows "\<exists>s'. main_loop reqds s = Some (Inr s') \<and> graph_inv xes s' \<and>
           (\<not> solved_reqds s' < reqds \<or> exhausted s')"
  using assms
proof (induction "potential xes s" arbitrary: s rule: less_induct)
  case less
  show ?case
  proof (cases "solved_reqds s < reqds")
    case False
    then have "main_loop reqds s = Some (Inr s)"
      by (subst main_loop.simps) simp
    with False less.prems show ?thesis by simp
  next
    case True
    from search_rounds_run [OF less.prems]
    obtain fne s1 where sr: "search_rounds s = Some (Inr (fne, s1))" and inv1: "graph_inv xes s1"
      and alt: "if fne then potential xes s1 < potential xes s
                else potential xes s1 \<le> potential xes s \<and> exhausted s1"
      by blast
    show ?thesis
    proof (cases fne)
      case False
      then have "main_loop reqds s = Some (Inr s1)"
        using True sr by (subst main_loop.simps) simp
      with inv1 alt False show ?thesis by simp
    next
      case fne: True
      then have "main_loop reqds s = main_loop reqds s1"
        using True sr by (subst main_loop.simps) simp
      moreover from fne alt have "potential xes s1 < potential xes s" by simp
      from less.hyps [OF this inv1]
      have "\<exists>s'. main_loop reqds s1 = Some (Inr s') \<and> graph_inv xes s' \<and>
           (\<not> solved_reqds s' < reqds \<or> exhausted s')" .
      ultimately show ?thesis by simp
    qed
  qed
qed

subsection \<open>The annotated graph\<close>

lemma is_reqd_iff: "is_reqd required n \<longleftrightarrow> n \<in> set required"
  by (induction required) auto

lemma get_xnode_at_None: "get_xnode_at k xs n = None \<longleftrightarrow> n \<notin> node ` set xs"
  by (induction xs arbitrary: k) auto

lemma first_at_Cons:
  "first_at (a # ns) n d \<longleftrightarrow> (if a = n then d = 0 else 0 < d \<and> first_at ns n (d - 1))"
proof (cases d)
  case 0
  then show ?thesis by (auto simp: first_at_def)
next
  case (Suc d')
  then show ?thesis
    by (auto simp: first_at_def less_Suc_eq_0_disj)
qed

lemma get_xnode_at_Some:
  "get_xnode_at k xs n = Some j \<longleftrightarrow> k \<le> j \<and> first_at (map node xs) n (j - k)"
proof (induction xs arbitrary: k)
  case Nil
  then show ?case by (simp add: first_at_def)
next
  case (Cons x xs)
  show ?case
  proof (cases "node x = n")
    case True
    then show ?thesis by (auto simp: first_at_Cons)
  next
    case False
    have "Suc k \<le> j \<longleftrightarrow> k \<le> j \<and> 0 < j - k" by auto
    moreover have "j - Suc k = j - k - 1" by simp
    ultimately show ?thesis
      using False by (simp only: get_xnode_at.simps list.map first_at_Cons Cons.IH if_False) blast
  qed
qed

lemma get_xnode_None: "get_xnode xs n = None \<longleftrightarrow> n \<notin> set (map node xs)"
  by (simp add: get_xnode_def get_xnode_at_None)

lemma get_xnode_Some: "get_xnode xs n = Some j \<longleftrightarrow> first_at (map node xs) n j"
  by (simp add: get_xnode_def get_xnode_at_Some)

lemma first_at_unique: "first_at ns n j \<Longrightarrow> first_at ns n k \<Longrightarrow> j = k"
  unfolding first_at_def by (metis linorder_neqE_nat)

lemma length_push_outgoing [simp]: "length (push_outgoing i x xs) = length xs"
  by (simp add: push_outgoing_def)

lemma length_push_incoming [simp]: "length (push_incoming i x xs) = length xs"
  by (simp add: push_incoming_def)

lemma push_outgoing_fields [simp]:
  assumes "j < length xs"
  shows "node (push_outgoing i x xs ! j) = node (xs ! j)"
    and "reqd (push_outgoing i x xs ! j) = reqd (xs ! j)"
    and "in_temporary_web (push_outgoing i x xs ! j) = in_temporary_web (xs ! j)"
    and "in_permanent_web (push_outgoing i x xs ! j) = in_permanent_web (xs ! j)"
    and "witness (push_outgoing i x xs ! j) = witness (xs ! j)"
    and "fifo (push_outgoing i x xs ! j) = fifo (xs ! j)"
    and "outgoing (push_outgoing i x xs ! j) = (if j = i then outgoing (xs ! j) @ [x] else outgoing (xs ! j))"
  using assms by (simp_all add: push_outgoing_def nth_update_if)

lemma push_incoming_fields [simp]:
  assumes "j < length xs"
  shows "node (push_incoming i x xs ! j) = node (xs ! j)"
    and "reqd (push_incoming i x xs ! j) = reqd (xs ! j)"
    and "in_temporary_web (push_incoming i x xs ! j) = in_temporary_web (xs ! j)"
    and "in_permanent_web (push_incoming i x xs ! j) = in_permanent_web (xs ! j)"
    and "witness (push_incoming i x xs ! j) = witness (xs ! j)"
    and "fifo (push_incoming i x xs ! j) = fifo (xs ! j)"
    and "outgoing (push_incoming i x xs ! j) = outgoing (xs ! j)"
  using assms by (simp_all add: push_incoming_def nth_update_if)

lemma map_field_eqI:
  assumes "length ys = length xs" "\<And>j. j < length xs \<Longrightarrow> f (ys ! j) = f (xs ! j)"
  shows "map f ys = map f xs"
  using assms by (intro nth_equalityI) auto

lemma add_xedge_error:
  assumes "map node xs = ns"
  shows "add_xedge e (xs, xes) = Inl err \<longleftrightarrow> efrom e \<notin> set ns \<or> eto e \<notin> set ns"
proof -
  have "n \<in> set ns \<longleftrightarrow> (\<exists>j. get_xnode xs n = Some j)" for n
    using assms get_xnode_None [of xs n] by auto
  then show ?thesis
    by (cases err) (auto simp: add_xedge_def Let_def split: option.splits)
qed

lemma add_xedge_fresh:
  assumes fresh: "fresh_graph ns required done g" and add: "add_xedge e g = Inr g'"
  shows "fresh_graph ns required (done @ [e]) g'"
proof -
  obtain xs xes where g: "g = (xs, xes)" by (cases g)
  from add g obtain f t where f: "get_xnode xs (efrom e) = Some f" and t: "get_xnode xs (eto e) = Some t"
    by (auto simp: add_xedge_def split: option.splits)
  define x where "x = \<lparr>edge = e, xfrom = f, xto = t, xweight = eweight e,
                        xin_solution = False, xin_first_component = False\<rparr>"
  from add g f t have g': "g' = (push_incoming t x (push_outgoing f x xs), xes @ [x])"
    by (simp add: add_xedge_def x_def Let_def)
  from fresh g have nodes: "map node xs = ns" by (simp add: fresh_graph_def)
  from f t nodes have wired: "wired ns x"
    by (simp add: wired_def x_def get_xnode_Some)
  let ?xs = "push_incoming t x (push_outgoing f x xs)"
  have "map node ?xs = map node xs" "map reqd ?xs = map reqd xs"
    by (rule map_field_eqI; simp)+
  moreover have "\<forall>i<length xs.
           fifo (?xs ! i) = [] \<and> \<not> in_temporary_web (?xs ! i) \<and> \<not> in_permanent_web (?xs ! i) \<and>
           witness (?xs ! i) = None \<and> set (outgoing (?xs ! i)) \<subseteq> set (xes @ [x]) \<and>
           (\<forall>y\<in>set (outgoing (?xs ! i)). xfrom y = i) \<and>
           length (outgoing (?xs ! i)) \<le> length (xes @ [x])"
    using fresh g by (auto simp: fresh_graph_def x_def)
  moreover have "edge x = e" by (simp add: x_def)
  ultimately show ?thesis
    using fresh g wired by (simp add: fresh_graph_def g')
qed

lemma add_xedges_fresh:
  assumes "fresh_graph ns required done g" "add_xedges es g = Inr g'"
  shows "fresh_graph ns required (done @ es) g'"
  using assms
proof (induction es arbitrary: g "done")
  case Nil
  then show ?case by simp
next
  case (Cons e es)
  then obtain g1 where g1: "add_xedge e g = Inr g1" "add_xedges es g1 = Inr g'"
    by (auto split: sum.splits)
  from add_xedge_fresh [OF Cons.prems(1) g1(1)] have "fresh_graph ns required (done @ [e]) g1" .
  from Cons.IH [OF this g1(2)] show ?case by simp
qed

lemma add_xedges_error:
  assumes "fresh_graph ns required done g"
  shows "add_xedges es g = Inl err \<longleftrightarrow> (\<exists>e\<in>set es. efrom e \<notin> set ns \<or> eto e \<notin> set ns)"
  using assms
proof (induction es arbitrary: g "done")
  case Nil
  then show ?case by simp
next
  case (Cons e es)
  obtain xs xes where g: "g = (xs, xes)" by (cases g)
  with Cons.prems have nodes: "map node xs = ns" by (simp add: fresh_graph_def)
  show ?case
  proof (cases "add_xedge e g")
    case (Inl err')
    with add_xedge_error [OF nodes, of e xes err'] g show ?thesis
      by (cases err; cases err') auto
  next
    case (Inr g1)
    with add_xedge_error [OF nodes, of e xes err] g
    have ok: "\<not> (efrom e \<notin> set ns \<or> eto e \<notin> set ns)" by auto
    from add_xedge_fresh [OF Cons.prems Inr] have "fresh_graph ns required (done @ [e]) g1" .
    from Cons.IH [OF this] Inr ok show ?thesis by auto
  qed
qed

lemma fresh_graph_start: "fresh_graph ns required [] (map (new_xnode required) ns, [])"
  by (simp add: fresh_graph_def new_xnode_def comp_def)

lemma build_graph_fresh:
  "build_graph ns es required = Inr g \<Longrightarrow> fresh_graph ns required es g"
  unfolding build_graph_def by (drule add_xedges_fresh [OF fresh_graph_start]) simp

lemma build_graph_error:
  "build_graph ns es required = Inl err \<longleftrightarrow> (\<exists>e\<in>set es. efrom e \<notin> set ns \<or> eto e \<notin> set ns)"
  unfolding build_graph_def using fresh_graph_start by (rule add_xedges_error)

lemma length_seed_fifos [simp]: "length (seed_fifos xs) = length xs"
  by (simp add: seed_fifos_def)

lemma nth_seed_fifos: "i < length xs \<Longrightarrow> seed_fifos xs ! i = seed_fifo i (xs ! i)"
  by (simp add: seed_fifos_def)

lemma graph_inv_initial:
  assumes "fresh_graph ns required es (xs, xes)"
  shows "graph_inv xes (initial_state xs)"
proof -
  have "node_ok xes (seed_fifos xs) i" if "i < length xs" for i
    using assms that
    by (auto simp: node_ok_def nth_seed_fifos seed_fifo_def fresh_graph_def ppath_ok_def)
  moreover have "xfrom x < length xs \<and> xto x < length xs" if "x \<in> set xes" for x
  proof -
    from assms that have "wired ns x" "length xs = length ns"
      by (auto simp: fresh_graph_def dest: arg_cong [where f = length])
    then show ?thesis by (simp add: wired_def first_at_def)
  qed
  ultimately show ?thesis
    by (simp add: graph_inv_def initial_state_def)
qed

lemma uniqueify_step_seen: "list_ex (\<lambda>r. same_ends r e) acc \<Longrightarrow> uniqueify_step e acc = acc"
  by (simp add: uniqueify_step_def)

lemma uniqueify_step_fresh: "\<not> list_ex (\<lambda>r. same_ends r e) acc \<Longrightarrow> uniqueify_step e acc = acc @ [e]"
  by (simp add: uniqueify_step_def)

lemma fold_uniqueify_step:
  "fold uniqueify_step es acc = acc @ first_wins (filter (\<lambda>x. \<not> list_ex (\<lambda>r. same_ends r x) acc) es)"
proof (induction es arbitrary: acc)
  case Nil
  then show ?case by simp
next
  case (Cons e es)
  have unfold: "fold uniqueify_step (e # es) acc = fold uniqueify_step es (uniqueify_step e acc)"
    by simp
  show ?case
  proof (cases "list_ex (\<lambda>r. same_ends r e) acc")
    case True
    then show ?thesis
      unfolding unfold by (simp add: uniqueify_step_seen Cons.IH)
  next
    case False
    have "filter (\<lambda>x. \<not> list_ex (\<lambda>r. same_ends r x) (acc @ [e])) es
        = filter (\<lambda>x. \<not> same_ends e x) (filter (\<lambda>x. \<not> list_ex (\<lambda>r. same_ends r x) acc) es)"
      by (auto simp: list_ex_iff intro: filter_cong)
    with False show ?thesis
      unfolding unfold by (simp add: uniqueify_step_fresh Cons.IH)
  qed
qed

lemma uniqueify_first_wins: "uniqueify es = first_wins es"
  by (simp add: uniqueify_def fold_uniqueify_step)

lemma set_first_wins: "set (first_wins es) \<subseteq> set es"
  by (induction es rule: first_wins.induct) auto

lemma ends_first_wins: "distinct (map ends (first_wins es))"
proof (induction es rule: first_wins.induct)
  case 1
  then show ?case by simp
next
  case (2 e es)
  have "ends e \<notin> ends ` set (first_wins (filter (\<lambda>x. \<not> same_ends e x) es))"
    using set_first_wins [of "filter (\<lambda>x. \<not> same_ends e x) es"]
    by (auto simp: ends_def same_ends_def)
  with 2 show ?case by simp
qed

lemma distinct_map_finer:
  assumes "distinct (map g xs)" "\<And>x y. x \<in> set xs \<Longrightarrow> y \<in> set xs \<Longrightarrow> f x = f y \<Longrightarrow> g x = g y"
  shows "distinct (map f xs)"
  using assms
proof (induction xs)
  case Nil
  then show ?case by simp
next
  case (Cons a xs)
  have "f a \<notin> f ` set xs"
  proof
    assume "f a \<in> f ` set xs"
    then obtain y where y: "y \<in> set xs" "f a = f y" by auto
    then have "g a = g y" using Cons.prems(2) by simp
    with Cons.prems(1) y show False by auto
  qed
  moreover have "distinct (map f xs)"
    using Cons.prems by (intro Cons.IH) auto
  ultimately show ?case by simp
qed

lemma wired_same_ends:
  assumes "wired ns x" "wired ns y" "edge_ends (edge x) = edge_ends (edge y)"
  shows "ends x = ends y"
  using assms first_at_unique unfolding wired_def edge_ends_def ends_def by (metis prod.inject)

lemma main_loop_done: "\<not> solved_reqds s < reqds \<Longrightarrow> main_loop reqds s = Some (Inr s)"
  by (subst main_loop.simps) simp

lemma steiner_cases:
  obtains (error) "\<exists>e\<in>set edges. dangling nodes e"
      "steiner connect nodes edges required = Some (Inl TypeError)"
  | (returns) xs xes s where "\<not> (\<exists>e\<in>set edges. dangling nodes e)"
      "build_graph nodes edges required = Inr (xs, xes)"
      "main_loop (count_reqds xs) (initial_state xs) = Some (Inr s)"
      "graph_inv xes s" "\<not> solved_reqds s < count_reqds xs \<or> exhausted s"
      "steiner connect nodes edges required
         = Some (Inr (map edge (uniqueify (connect (soln s) xes (xnodes s)))))"
proof (cases "build_graph nodes edges required")
  case (Inl err)
  then have "\<exists>e\<in>set edges. dangling nodes e"
    by (simp add: build_graph_error dangling_def)
  moreover from Inl have "steiner connect nodes edges required = Some (Inl TypeError)"
    by (cases err) (simp add: steiner_def)
  ultimately show ?thesis by (rule error)
next
  case (Inr g)
  obtain xs xes where g: "g = (xs, xes)" by (cases g)
  from Inr have "build_graph nodes edges required \<noteq> Inl TypeError" by simp
  then have ok: "\<not> (\<exists>e\<in>set edges. dangling nodes e)"
    by (simp add: build_graph_error dangling_def)
  from Inr g have "fresh_graph nodes required edges (xs, xes)"
    by (simp add: build_graph_fresh)
  then have "graph_inv xes (initial_state xs)" by (rule graph_inv_initial)
  from main_loop_run [OF this, of "count_reqds xs"]
  obtain s where s: "main_loop (count_reqds xs) (initial_state xs) = Some (Inr s)"
    "graph_inv xes s" "\<not> solved_reqds s < count_reqds xs \<or> exhausted s"
    by blast
  with Inr g have "steiner connect nodes edges required
         = Some (Inr (map edge (uniqueify (connect (soln s) xes (xnodes s)))))"
    by (simp add: steiner_def)
  with ok Inr g s show ?thesis by (intro returns) auto
qed

declare search_rounds.simps [code] main_loop.simps [code]

subsection \<open>Reachability\<close>

lemma sym_edge_links: "sym (edge_links es)"
  by (auto simp: edge_links_def sym_def)

lemma joined_refl: "joined es a a"
  by (simp add: joined_def)

lemma joined_sym: "joined es a b \<Longrightarrow> joined es b a"
  unfolding joined_def using sym_rtrancl [OF sym_edge_links] by (auto dest: symD)

lemma joined_trans: "joined es a b \<Longrightarrow> joined es b c \<Longrightarrow> joined es a c"
  unfolding joined_def by (rule rtrancl_trans)

lemma joined_edge: "e \<in> set es \<Longrightarrow> joined es (efrom e) (eto e)"
  unfolding joined_def edge_links_def edge_ends_def by (intro r_into_rtrancl) auto

lemma not_joined:
  assumes "a \<in> S" "b \<notin> S" "edge_links es `` S \<subseteq> S"
  shows "\<not> joined es a b"
proof
  assume "joined es a b"
  with assms(1) have "b \<in> (edge_links es)\<^sup>* `` S" by (auto simp: joined_def)
  with Image_closed_trancl [OF assms(3)] assms(2) show False by simp
qed

lemma chain_connected: "graph_connected [0, 1, 2, 3, 4] chain_edges"
proof -
  have e: "joined chain_edges 0 1" "joined chain_edges 1 2" "joined chain_edges 2 3"
    "joined chain_edges 3 4"
    using joined_edge [of "mk_edge 0 1 1" chain_edges] joined_edge [of "mk_edge 1 2 1" chain_edges]
      joined_edge [of "mk_edge 2 3 1" chain_edges] joined_edge [of "mk_edge 3 4 1" chain_edges]
    by (simp_all add: chain_edges_def mk_edge_def)
  have from0: "joined chain_edges 0 a" if "a \<in> set [0, 1, 2, 3, 4]" for a
  proof -
    have "joined chain_edges 0 0" by (rule joined_refl)
    moreover have "joined chain_edges 0 2" using e(1,2) by (rule joined_trans)
    moreover from this have "joined chain_edges 0 3" using e(3) by (rule joined_trans)
    moreover from this have "joined chain_edges 0 4" using e(4) by (rule joined_trans)
    ultimately show ?thesis using that e(1) by auto
  qed
  show ?thesis
    unfolding graph_connected_def
    by (blast intro: joined_trans [OF joined_sym [OF from0] from0])
qed

subsection \<open>The normalizer keeps what is joined\<close>

lemma first_wins_covers: "x \<in> set es \<Longrightarrow> \<exists>y\<in>set (first_wins es). ends y = ends x"
proof (induction es arbitrary: x rule: first_wins.induct)
  case 1
  then show ?case by simp
next
  case (2 e es)
  show ?case
  proof (cases "ends e = ends x")
    case True
    then show ?thesis by auto
  next
    case False
    with "2.prems" have "x \<in> set (filter (\<lambda>x. \<not> same_ends e x) es)"
      by (auto simp: same_ends_def ends_def)
    from "2.IH" [OF this] show ?thesis by auto
  qed
qed

lemma wired_ends: "wired ns x \<Longrightarrow> edge_ends (edge x) = (ns ! xfrom x, ns ! xto x)"
  by (simp add: wired_def first_at_def edge_ends_def)

lemma edge_ends_first_wins:
  assumes "\<And>x. x \<in> set es \<Longrightarrow> wired ns x"
  shows "edge_ends ` set (map edge (first_wins es)) = edge_ends ` set (map edge es)"
proof
  show "edge_ends ` set (map edge (first_wins es)) \<subseteq> edge_ends ` set (map edge es)"
    using set_first_wins [of es] by auto
  show "edge_ends ` set (map edge es) \<subseteq> edge_ends ` set (map edge (first_wins es))"
  proof
    fix p
    assume "p \<in> edge_ends ` set (map edge es)"
    then obtain x where x: "x \<in> set es" "p = edge_ends (edge x)" by auto
    from first_wins_covers [OF x(1)] obtain y where y: "y \<in> set (first_wins es)" "ends y = ends x"
      by blast
    with set_first_wins [of es] have "y \<in> set es" by auto
    with x(1) assms have "edge_ends (edge y) = (ns ! xfrom y, ns ! xto y)"
      "edge_ends (edge x) = (ns ! xfrom x, ns ! xto x)"
      by (simp_all add: wired_ends)
    with x(2) y(2) have "edge_ends (edge y) = p"
      by (simp add: ends_def)
    with y(1) show "p \<in> edge_ends ` set (map edge (first_wins es))" by force
  qed
qed

lemma steiner_returns:
  assumes "stays_in_graph connect" "steiner connect nodes edges required = Some (Inr out)"
  shows "\<exists>xs xes s. build_graph nodes edges required = Inr (xs, xes) \<and>
    main_loop (count_reqds xs) (initial_state xs) = Some (Inr s) \<and>
    out = map edge (first_wins (connect (soln s) xes (xnodes s))) \<and>
    (\<forall>x\<in>set (connect (soln s) xes (xnodes s)). wired nodes x \<and> edge x \<in> set edges)"
proof (cases connect nodes edges required rule: steiner_cases)
  case error
  with assms(2) show ?thesis by simp
next
  case (returns xs xes s)
  let ?c = "connect (soln s) xes (xnodes s)"
  from returns assms(2) have out: "out = map edge (first_wins ?c)"
    by (simp add: uniqueify_first_wins)
  from returns(2) have fresh: "fresh_graph nodes required edges (xs, xes)"
    by (rule build_graph_fresh)
  have "set ?c \<subseteq> set (soln s) \<union> set xes"
    using assms(1) by (simp add: stays_in_graph_def)
  also have "\<dots> \<subseteq> set xes"
    using returns(4) by (simp add: graph_inv_def)
  finally have "set ?c \<subseteq> set xes" .
  moreover have "wired nodes x \<and> edge x \<in> set edges" if "x \<in> set xes" for x
  proof -
    from fresh that have "wired nodes x" "edge x \<in> set (map edge xes)" "map edge xes = edges"
      by (auto simp: fresh_graph_def)
    then show ?thesis by simp
  qed
  ultimately show ?thesis
    using returns(2,3) out by blast
qed

subsection \<open>What one visit does to witnesses, flags and queues\<close>

lemma visit_cases:
  obtains (idle) "idle i s" "visit i s = Inr (False, False, s)" "arrival i s = None"
  | (requeue) pp rest where "\<not> idle i s" "fifo (xnodes s ! i) = pp # rest" "1 < endweight pp"
      "visit i s = Inr (True, False, push_fifo i (pp\<lparr>endweight := endweight pp - 1\<rparr>) (set_fifo i rest s))"
      "arrival i s = None"
  | (arrive) pp rest where "\<not> idle i s" "fifo (xnodes s ! i) = pp # rest" "\<not> 1 < endweight pp"
      "arrival i s = Some pp"
      "visit i s =
         (case scan_outgoing i (path pp)
                 (outgoing (xnodes (arrive i (point pp) (path pp) (set_fifo i rest s)) ! point pp))
                 (arrive i (point pp) (path pp) (set_fifo i rest s)) of
            Inl err \<Rightarrow> Inl err
          | Inr (broke, s3) \<Rightarrow> Inr (True, broke, s3))"
proof (cases "idle i s")
  case True
  then show ?thesis by (intro idle) (simp_all add: visit_idle arrival_def)
next
  case False
  then obtain pp rest where q: "fifo (xnodes s ! i) = pp # rest"
    by (cases "fifo (xnodes s ! i)") (auto simp: idle_def)
  show ?thesis
  proof (cases "1 < endweight pp")
    case True
    with False q show ?thesis
      by (intro requeue [of pp rest]) (simp_all add: visit_requeue arrival_def)
  next
    case nope: False
    with False q show ?thesis
      by (intro arrive [of pp rest]) (auto simp: visit_def idle_def Let_def arrival_def)
  qed
qed

subsection \<open>Two required nodes and one edge\<close>







subsection \<open>The order of a queue\<close>

lemma queue_ordered_Nil [simp]: "queue_ordered []"
  by (simp add: queue_ordered_def)

lemma queue_ordered_single [simp]: "queue_ordered [pp]"
  by (simp add: queue_ordered_def)






subsection \<open>What one visit does to a queue\<close>





subsection \<open>An edge of weight W takes W turns\<close>





subsection \<open>The search writes flags, witnesses and queues only\<close>

lemma wiring_update: "wiring y = wiring (xs ! i) \<Longrightarrow> map wiring (xs[i := y]) = map wiring xs"
  by (cases "i < length xs") (simp_all add: map_update list_update_same_conv list_update_beyond)

lemma wiring_set_fifo [simp]: "map wiring (xnodes (set_fifo i q s)) = map wiring (xnodes s)"
  by (simp add: set_fifo_def wiring_update wiring_def)

lemma wiring_arrive [simp]: "map wiring (xnodes (arrive n p pth s)) = map wiring (xnodes s)"
  by (simp add: arrive_def wiring_update wiring_def)

lemma wiring_set_permanent [simp]: "map wiring (set_permanent i xs) = map wiring xs"
  by (simp add: set_permanent_def wiring_update wiring_def)

lemma wiring_mark_steps [simp]: "map wiring (mark_steps steps xs) = map wiring xs"
  by (induction steps arbitrary: xs) simp_all








section \<open>The claims\<close>

text \<open>
  C1 as stated fails.  On the chain 0 - 1 - 2 - 3 - 4, connected, with both directions
  of every edge and weights 1, and with 0, 1, 3 and 4 required, the search joins 0 to 1
  and 3 to 4 and then finds every queue empty.  A repair step that adds nothing keeps the
  stated contract, and the required nodes 0 and 3 stay apart.
\<close>

theorem chain_left_disconnected:
  "graph_connected [0, 1, 2, 3, 4] chain_edges \<and> both_directions chain_edges \<and>
   positive_weights chain_edges \<and> repair_contract no_repair \<and>
   steiner no_repair [0, 1, 2, 3, 4] chain_edges [0, 1, 3, 4]
     = Some (Inr [mk_edge 0 1 1, mk_edge 3 4 1]) \<and>
   \<not> joined [mk_edge 0 1 1, mk_edge 3 4 1] 0 3"
proof -
  have "both_directions chain_edges"
    by (simp add: both_directions_def chain_edges_def mk_edge_def)
  moreover have "positive_weights chain_edges"
    by (simp add: positive_weights_def chain_edges_def mk_edge_def)
  moreover have "repair_contract no_repair"
    by (simp add: repair_contract_def no_repair_def)
  moreover have "steiner no_repair [0, 1, 2, 3, 4] chain_edges [0, 1, 3, 4]
     = Some (Inr [mk_edge 0 1 1, mk_edge 3 4 1])"
    by code_simp
  moreover have "\<not> joined [mk_edge 0 1 1, mk_edge 3 4 1] 0 3"
    by (rule not_joined [where S = "{0, 1}"])
       (auto simp: edge_links_def edge_ends_def mk_edge_def)
  ultimately show ?thesis using chain_connected by simp
qed

text \<open>
  C1, as amended.  When the repair step returns annotated edges of the graph, two nodes
  are joined by the edges \<open>steiner\<close> returns exactly when they are joined by the edges
  the repair step returned: dropping duplicates and going back to the caller's edges
  loses no connection.  So the required nodes are joined in the result whenever the
  repair step has joined them; the search alone does not promise it.
\<close>

theorem steiner_joins_what_connect_joins:
  assumes "stays_in_graph connect" "steiner connect nodes edges required = Some (Inr out)"
  shows "\<exists>xs xes s. build_graph nodes edges required = Inr (xs, xes) \<and>
     main_loop (count_reqds xs) (initial_state xs) = Some (Inr s) \<and>
     (\<forall>a b. joined out a b \<longleftrightarrow> joined (map edge (connect (soln s) xes (xnodes s))) a b)"
proof -
  from steiner_returns [OF assms] obtain xs xes s where
    run: "build_graph nodes edges required = Inr (xs, xes)"
      "main_loop (count_reqds xs) (initial_state xs) = Some (Inr s)"
      "out = map edge (first_wins (connect (soln s) xes (xnodes s)))"
      "\<And>x. x \<in> set (connect (soln s) xes (xnodes s)) \<Longrightarrow> wired nodes x \<and> edge x \<in> set edges"
    by blast
  have "edge_ends ` set out = edge_ends ` set (map edge (connect (soln s) xes (xnodes s)))"
    unfolding run(3) using run(4) by (intro edge_ends_first_wins [of _ nodes]) simp
  then have "edge_links out = edge_links (map edge (connect (soln s) xes (xnodes s)))"
    by (simp only: edge_links_def)
  then have "joined out a b \<longleftrightarrow> joined (map edge (connect (soln s) xes (xnodes s))) a b" for a b
    by (simp only: joined_def)
  with run(1,2) show ?thesis by blast
qed

theorem steiner_joins_what_connect_joins_witness:
  "stays_in_graph no_repair \<and>
   steiner no_repair [0, 1, 2, 3, 4] detour_edges [0, 1, 2] = Some (Inr detour_edges) \<and>
   (\<exists>xs xes s. build_graph [0, 1, 2, 3, 4] detour_edges [0, 1, 2] = Inr (xs, xes) \<and>
     main_loop (count_reqds xs) (initial_state xs) = Some (Inr s) \<and>
     (\<forall>a b. joined detour_edges a b \<longleftrightarrow> joined (map edge (no_repair (soln s) xes (xnodes s))) a b))"
proof -
  have h1: "stays_in_graph no_repair"
    by (simp add: stays_in_graph_def no_repair_def)
  have h2: "steiner no_repair [0, 1, 2, 3, 4] detour_edges [0, 1, 2] = Some (Inr detour_edges)"
    by code_simp
  from steiner_joins_what_connect_joins [OF h1 h2] h1 h2 show ?thesis by simp
qed

text \<open>
  C2.  When the repair step returns annotated edges of the graph, no two edges returned
  by \<open>steiner\<close> have the same ordered pair of end nodes, and the result is the repaired
  solution with, for every ordered pair of ends, the first entry kept and the later ones
  dropped.
\<close>

theorem steiner_unique_ends:
  assumes "stays_in_graph connect" "steiner connect nodes edges required = Some (Inr out)"
  shows "distinct (map edge_ends out) \<and>
     (\<exists>xs xes s. build_graph nodes edges required = Inr (xs, xes) \<and>
        main_loop (count_reqds xs) (initial_state xs) = Some (Inr s) \<and>
        out = map edge (first_wins (connect (soln s) xes (xnodes s))))"
proof -
  from steiner_returns [OF assms] obtain xs xes s where
    run: "build_graph nodes edges required = Inr (xs, xes)"
      "main_loop (count_reqds xs) (initial_state xs) = Some (Inr s)"
      "out = map edge (first_wins (connect (soln s) xes (xnodes s)))"
      "\<And>x. x \<in> set (connect (soln s) xes (xnodes s)) \<Longrightarrow> wired nodes x \<and> edge x \<in> set edges"
    by blast
  let ?c = "connect (soln s) xes (xnodes s)"
  have "distinct (map (\<lambda>x. edge_ends (edge x)) (first_wins ?c))"
    using ends_first_wins [of ?c]
  proof (rule distinct_map_finer)
    fix x y
    assume "x \<in> set (first_wins ?c)" "y \<in> set (first_wins ?c)" "edge_ends (edge x) = edge_ends (edge y)"
    with set_first_wins [of ?c] run(4) show "ends x = ends y"
      by (intro wired_same_ends [of nodes]) auto
  qed
  then have "distinct (map edge_ends out)"
    by (simp add: run(3) comp_def)
  with run show ?thesis by blast
qed

theorem steiner_unique_ends_witness:
  "stays_in_graph no_repair \<and>
   steiner no_repair [0, 1, 2, 3, 4] detour_edges [0, 1, 2] = Some (Inr detour_edges) \<and>
   length (soln (after_rounds 4 (start [0, 1, 2, 3, 4] detour_edges [0, 1, 2]))) = 7 \<and>
   distinct (map edge_ends detour_edges)"
proof -
  have h1: "stays_in_graph no_repair"
    by (simp add: stays_in_graph_def no_repair_def)
  have h2: "steiner no_repair [0, 1, 2, 3, 4] detour_edges [0, 1, 2] = Some (Inr detour_edges)"
    by code_simp
  have "length (soln (after_rounds 4 (start [0, 1, 2, 3, 4] detour_edges [0, 1, 2]))) = 7"
    by code_simp
  with steiner_unique_ends [OF h1 h2] h1 h2 show ?thesis by simp
qed

text \<open>
  C3.  In the step to a fellow required vertex or to the permanent web, the flag
  \<open>in_permanent_web\<close> of the destination has just been set when it is tested, so the
  branch adding 2 to \<open>solved_reqds\<close> is never taken: the step adds exactly 1, every time
  the loop over the outgoing edges takes it.
\<close>

theorem terminal_merge_adds_one:
  assumes "xto out < length (xnodes s)"
  shows "in_permanent_web (xnodes (terminal_merge pth out s) ! xto out) \<and>
     solved_reqds (terminal_merge pth out s) = solved_reqds s + 1 \<and>
     ((reqd (xnodes s ! xto out) \<and> xto out \<noteq> n) \<or> in_permanent_web (xnodes s ! xto out) \<longrightarrow>
        scan_outgoing n pth (out # rest) s = Inr (True, terminal_merge pth out s))"
  using assms by (simp add: terminal_merge_def Let_def scan_outgoing_closes closes_def)

theorem terminal_merge_adds_one_witness:
  "xto (mk_xedge 0 1 5) < length (xnodes (start [0, 1] [mk_edge 0 1 5] [0, 1])) \<and>
   reqd (xnodes (start [0, 1] [mk_edge 0 1 5] [0, 1]) ! 1) \<and>
   scan_outgoing 0 [] [mk_xedge 0 1 5] (start [0, 1] [mk_edge 0 1 5] [0, 1])
     = Inr (True, terminal_merge [] (mk_xedge 0 1 5) (start [0, 1] [mk_edge 0 1 5] [0, 1])) \<and>
   solved_reqds (terminal_merge [] (mk_xedge 0 1 5) (start [0, 1] [mk_edge 0 1 5] [0, 1])) = 1"
proof -
  have h: "xto (mk_xedge 0 1 5) < length (xnodes (start [0, 1] [mk_edge 0 1 5] [0, 1]))"
    by code_simp
  have r: "reqd (xnodes (start [0, 1] [mk_edge 0 1 5] [0, 1]) ! xto (mk_xedge 0 1 5))"
    "xto (mk_xedge 0 1 5) \<noteq> 0" "xto (mk_xedge 0 1 5) = 1"
    "solved_reqds (start [0, 1] [mk_edge 0 1 5] [0, 1]) = 0"
    by code_simp+
  from terminal_merge_adds_one [OF h, of "[]" 0 "[]"] r h show ?thesis
    by (simp del: One_nat_def)
qed

text \<open>
  C4 as stated fails: with \<open>nodes = [0]\<close>, no edge and the unknown node 1 required,
  \<open>steiner\<close> returns the empty list instead of rejecting the input.
\<close>

theorem steiner_accepts_unknown_required: "steiner no_repair [0] [] [1] = Some (Inr [])"
  by (simp add: steiner_def build_graph_def new_xnode_def count_reqds_def main_loop_done
      initial_state_def no_repair_def uniqueify_def seed_fifos_def seed_fifo_def)

text \<open>
  C4, as amended.  \<open>steiner\<close> throws, before the search, exactly when an edge names an
  end node that is not in \<open>nodes\<close>.  A required node that is not in \<open>nodes\<close> is never
  looked at: the result is the one for the required nodes that are in \<open>nodes\<close>.
\<close>

theorem steiner_error_iff_dangling:
  "(steiner connect nodes edges required = Some (Inl TypeError) \<longleftrightarrow> (\<exists>e\<in>set edges. dangling nodes e)) \<and>
   steiner connect nodes edges required = steiner connect nodes edges (filter (\<lambda>n. n \<in> set nodes) required)"
proof
  show "steiner connect nodes edges required = Some (Inl TypeError) \<longleftrightarrow> (\<exists>e\<in>set edges. dangling nodes e)"
    by (cases connect nodes edges required rule: steiner_cases) auto
  have "new_xnode required n = new_xnode (filter (\<lambda>n. n \<in> set nodes) required) n" if "n \<in> set nodes" for n
    using that by (simp add: new_xnode_def is_reqd_iff)
  then have "map (new_xnode required) nodes = map (new_xnode (filter (\<lambda>n. n \<in> set nodes) required)) nodes"
    by simp
  then show "steiner connect nodes edges required = steiner connect nodes edges (filter (\<lambda>n. n \<in> set nodes) required)"
    by (simp only: steiner_def build_graph_def)
qed

theorem steiner_error_iff_dangling_witness:
  "steiner no_repair [0] [mk_edge 0 1 1] [0] = Some (Inl TypeError) \<and>
   steiner no_repair [0] [] [0, 1] = steiner no_repair [0] [] [0]"
  using steiner_error_iff_dangling [of no_repair "[0]" "[mk_edge 0 1 1]" "[0]"]
    steiner_error_iff_dangling [of no_repair "[0]" "[]" "[0, 1]"]
  by (simp add: dangling_def mk_edge_def)







text \<open>
  C8 as stated fails.  Sources 0 and 1 both have an edge into node 2, of weights 1 and 3.
  After three rounds node 2 carries the witness of source 0; in the fourth round the
  partial path of source 1 arrives and the witness is replaced by one of source 1.
\<close>

theorem later_source_replaces_witness:
  "owner (after_rounds 3 (start [0, 1, 2] late_edges [0, 1])) 2 = Some 0 \<and>
   visit 1 (after_rounds 3 (start [0, 1, 2] late_edges [0, 1]))
     = Inr (True, False, after_rounds 4 (start [0, 1, 2] late_edges [0, 1])) \<and>
   owner (after_rounds 4 (start [0, 1, 2] late_edges [0, 1])) 2 = Some 1 \<and>
   main_loop 2 (start [0, 1, 2] late_edges [0, 1])
     = Some (Inr (after_rounds 4 (start [0, 1, 2] late_edges [0, 1])))"
  by code_simp

text \<open>
  C8, as amended.  The witness of a node records the latest arrival: when a partial path
  of source \<open>i\<close> fully arrives at its point, that node's witness becomes the source \<open>i\<close>
  with the path, whatever it was before; the visit changes no other witness, and a visit
  without an arrival changes none.
\<close>

theorem visit_sets_witness_of_arrival:
  assumes "visit i s = Inr (t, b, s')" "j < length (xnodes s)"
  shows "witness (xnodes s' ! j) =
     (case arrival i s of
        None \<Rightarrow> witness (xnodes s ! j)
      | Some pp \<Rightarrow> if j = point pp then Some \<lparr>wnode = i, wpath = path pp\<rparr>
                   else witness (xnodes s ! j))"
proof (cases i s rule: visit_cases)
  case idle
  with assms show ?thesis by simp
next
  case (requeue pp rest)
  with assms show ?thesis by (auto simp: push_fifo_set_fifo)
next
  case (arrive pp rest)
  let ?s2 = "arrive i (point pp) (path pp) (set_fifo i rest s)"
  from arrive(5) assms(1) have "scan_outgoing i (path pp) (outgoing (xnodes ?s2 ! point pp)) ?s2 = Inr (b, s')"
    by (simp split: sum.splits)
  from scan_outgoing_others [OF this, of j] assms(2)
  have "witness (xnodes s' ! j) = witness (xnodes ?s2 ! j)" by simp
  with arrive(4) assms(2) show ?thesis by simp
qed

theorem visit_sets_witness_of_arrival_witness:
  "visit 1 (after_rounds 3 (start [0, 1, 2] late_edges [0, 1]))
     = Inr (True, False, after_rounds 4 (start [0, 1, 2] late_edges [0, 1])) \<and>
   2 < length (xnodes (after_rounds 3 (start [0, 1, 2] late_edges [0, 1]))) \<and>
   map_option point (arrival 1 (after_rounds 3 (start [0, 1, 2] late_edges [0, 1]))) = Some 2 \<and>
   witness (xnodes (after_rounds 4 (start [0, 1, 2] late_edges [0, 1])) ! 2)
     = Some \<lparr>wnode = 1, wpath = [mk_xedge 1 2 3]\<rparr>"
proof -
  have h1: "visit 1 (after_rounds 3 (start [0, 1, 2] late_edges [0, 1]))
     = Inr (True, False, after_rounds 4 (start [0, 1, 2] late_edges [0, 1]))"
    by code_simp
  have h2: "2 < length (xnodes (after_rounds 3 (start [0, 1, 2] late_edges [0, 1])))"
    by code_simp
  have a: "arrival 1 (after_rounds 3 (start [0, 1, 2] late_edges [0, 1]))
     = Some \<lparr>point = 2, path = [mk_xedge 1 2 3], endweight = 1\<rparr>"
    by code_simp
  have h3: "map_option point (arrival 1 (after_rounds 3 (start [0, 1, 2] late_edges [0, 1]))) = Some 2"
    unfolding a by simp
  have "witness (xnodes (after_rounds 4 (start [0, 1, 2] late_edges [0, 1])) ! 2)
     = Some \<lparr>wnode = 1, wpath = [mk_xedge 1 2 3]\<rparr>"
    using visit_sets_witness_of_arrival [OF h1 h2] unfolding a by simp
  with h1 h2 h3 show ?thesis by blast
qed

text \<open>
  C9 as stated fails.  Source 0 reaches source 1 over the nodes 3 and 4; the merge of the
  third round puts node 3 into the permanent web.  Source 2 still holds a partial path
  to node 3: in the fourth round it is popped, node 3 gets the witness of source 2 and
  its outgoing edge is examined and merged.
\<close>

theorem permanent_node_processed_again:
  "in_permanent_web (xnodes (after_rounds 3 (start [0, 1, 2, 3, 4] detour_edges [0, 1, 2])) ! 3) \<and>
   owner (after_rounds 3 (start [0, 1, 2, 3, 4] detour_edges [0, 1, 2])) 3 = Some 0 \<and>
   map_option point (arrival 2 (after_rounds 3 (start [0, 1, 2, 3, 4] detour_edges [0, 1, 2]))) = Some 3 \<and>
   visit 2 (after_rounds 3 (start [0, 1, 2, 3, 4] detour_edges [0, 1, 2]))
     = Inr (True, True, after_rounds 4 (start [0, 1, 2, 3, 4] detour_edges [0, 1, 2])) \<and>
   owner (after_rounds 4 (start [0, 1, 2, 3, 4] detour_edges [0, 1, 2])) 3 = Some 2 \<and>
   solved_reqds (after_rounds 4 (start [0, 1, 2, 3, 4] detour_edges [0, 1, 2])) = 3 \<and>
   main_loop 3 (start [0, 1, 2, 3, 4] detour_edges [0, 1, 2])
     = Some (Inr (after_rounds 4 (start [0, 1, 2, 3, 4] detour_edges [0, 1, 2])))"
  by code_simp

text \<open>
  C9, as amended.  Once a node is in the permanent web it stays there and it no longer
  searches as a source: a visit of the node itself changes nothing, and no visit changes
  its queue.
\<close>

theorem permanent_source_retired:
  assumes "visit i s = Inr (t, b, s')" "j < length (xnodes s)" "in_permanent_web (xnodes s ! j)"
  shows "in_permanent_web (xnodes s' ! j) \<and> fifo (xnodes s' ! j) = fifo (xnodes s ! j) \<and>
     (i = j \<longrightarrow> \<not> t \<and> \<not> b \<and> s' = s)"
proof (cases "i = j")
  case True
  with assms(3) have "idle i s" by (simp add: idle_def)
  with assms True show ?thesis by (simp add: visit_idle)
next
  case False
  show ?thesis
  proof (cases i s rule: visit_cases)
    case idle
    with assms show ?thesis by simp
  next
    case (requeue pp rest)
    with assms False show ?thesis by (auto simp: push_fifo_set_fifo)
  next
    case (arrive pp rest)
    let ?s2 = "arrive i (point pp) (path pp) (set_fifo i rest s)"
    from arrive(5) assms(1) have "scan_outgoing i (path pp) (outgoing (xnodes ?s2 ! point pp)) ?s2 = Inr (b, s')"
      by (simp split: sum.splits)
    from scan_outgoing_others [OF this, of j] assms(2,3) False show ?thesis by simp
  qed
qed

theorem permanent_source_retired_witness:
  "visit 1 (after_rounds 3 (start [0, 1, 2, 3, 4] detour_edges [0, 1, 2]))
     = Inr (False, False, after_rounds 3 (start [0, 1, 2, 3, 4] detour_edges [0, 1, 2])) \<and>
   1 < length (xnodes (after_rounds 3 (start [0, 1, 2, 3, 4] detour_edges [0, 1, 2]))) \<and>
   in_permanent_web (xnodes (after_rounds 3 (start [0, 1, 2, 3, 4] detour_edges [0, 1, 2])) ! 1)"
proof -
  have h2: "1 < length (xnodes (after_rounds 3 (start [0, 1, 2, 3, 4] detour_edges [0, 1, 2])))"
    by code_simp
  have h3: "in_permanent_web (xnodes (after_rounds 3 (start [0, 1, 2, 3, 4] detour_edges [0, 1, 2])) ! 1)"
    by code_simp
  obtain t b s' where v: "visit 1 (after_rounds 3 (start [0, 1, 2, 3, 4] detour_edges [0, 1, 2])) = Inr (t, b, s')"
    using h3 by (auto simp: visit_idle idle_def)
  from permanent_source_retired [OF v h2 h3] v h2 h3 show ?thesis by simp
qed



end
